theory Spec2Isabelle
  imports Complex_Main "HOL-Library.AList"
begin

section \<open>Data model of CampusMap.js\<close>

text \<open>
  The routing code of \<^verbatim>\<open>src/components/CampusMap.js\<close> works on four kinds of data.

  \<^item> A coordinate is a two-element array of numbers. The reading of the two numbers is
    (latitude, longitude) inside the graph and (longitude, latitude) in the GeoJSON
    documents. A finite double is the real number it stands for.
  \<^item> A graph node key is the string \<^verbatim>\<open>JSON.stringify\<close> makes of a (latitude, longitude)
    array. On arrays of two finite numbers \<^verbatim>\<open>JSON.stringify\<close> is injective and
    \<^verbatim>\<open>JSON.parse\<close> inverts it, so the type of keys is a copy of the type of
    coordinates, with \<open>JSON_stringify\<close> as its constructor and \<open>JSON_parse\<close> as its
    selector. Such a key is never the empty string.
  \<^item> A JavaScript object with string keys enumerates its keys in insertion order, and an
    assignment to a key that is already there keeps its position. Such an object is an
    association list; \<^const>\<open>map_of\<close> reads it, \<^const>\<open>AList.update\<close> assigns to it.
  \<^item> The values kept in \<^verbatim>\<open>distances\<close> are numbers: a finite double, an infinity
    or \<^verbatim>\<open>NaN\<close>. Reading a missing property gives \<^verbatim>\<open>undefined\<close>, which arithmetic
    and comparison turn into \<^verbatim>\<open>NaN\<close>. The sum of two finite doubles is their sum as
    reals, rounded to a double.

  \<^verbatim>\<open>L.latLng(a).distanceTo(b)\<close> belongs to the Leaflet library, not to this repository;
  it is a parameter \<open>distanceTo\<close> of every function that calls it.
\<close>

type_synonym coord = "real \<times> real"
datatype key = JSON_stringify (JSON_parse: coord)
type_synonym adjacency = "(key \<times> real) list"
type_synonym graph = "(key \<times> adjacency) list"
type_synonym road = "coord list"

datatype num = Fin real | Infinity | MinusInfinity | NaN

text \<open>
  Rounding a real to a double, as IEEE 754 binary64 does in its default mode, which is
  the one ECMAScript prescribes for \<^verbatim>\<open>+\<close>. \<open>round_even\<close> rounds to the nearest integer,
  a tie to the even one. \<open>expo x\<close> is the binary exponent of \<open>x\<close>, which is never below
  that of the subnormal numbers; \<open>ulp x\<close> is the distance between neighbouring doubles
  at this exponent, for a significand of 53 bits. \<open>to_nearest x\<close> is the multiple of
  \<open>ulp x\<close> that is nearest to \<open>x\<close>, and \<open>round_double x\<close> is this number, or an
  infinity when it is out of the range of the doubles. \<open>double x\<close>: the real \<open>x\<close> is a
  double.
\<close>

definition round_even :: "real \<Rightarrow> int" where
  "round_even q =
     (let f = \<lfloor>q\<rfloor>; d = q - of_int f
      in if d < 1 / 2 then f else if 1 / 2 < d then f + 1 else if even f then f else f + 1)"

definition expo :: "real \<Rightarrow> int" where
  "expo x = (if \<bar>x\<bar> < 2 powi (- 1022) then - 1022 else \<lfloor>log 2 \<bar>x\<bar>\<rfloor>)"

definition ulp :: "real \<Rightarrow> real" where
  "ulp x = 2 powi (expo x - 52)"

definition to_nearest :: "real \<Rightarrow> real" where
  "to_nearest x = of_int (round_even (x / ulp x)) * ulp x"

definition round_double :: "real \<Rightarrow> num" where
  "round_double x =
     (let r = to_nearest x
      in if 2 powi 1024 \<le> r then Infinity
         else if r \<le> - (2 powi 1024) then MinusInfinity
         else Fin r)"

definition double :: "real \<Rightarrow> bool" where
  "double x = (round_double x = Fin x)"

text \<open>\<^verbatim>\<open>a < b\<close> and \<^verbatim>\<open>a + b\<close> on numbers.\<close>

fun num_lt :: "num \<Rightarrow> num \<Rightarrow> bool" where
  "num_lt (Fin a) (Fin b) = (a < b)"
| "num_lt (Fin a) Infinity = True"
| "num_lt MinusInfinity (Fin b) = True"
| "num_lt MinusInfinity Infinity = True"
| "num_lt _ _ = False"

fun num_add :: "num \<Rightarrow> num \<Rightarrow> num" where
  "num_add (Fin a) (Fin b) = round_double (a + b)"
| "num_add NaN _ = NaN"
| "num_add _ NaN = NaN"
| "num_add Infinity MinusInfinity = NaN"
| "num_add MinusInfinity Infinity = NaN"
| "num_add Infinity _ = Infinity"
| "num_add _ Infinity = Infinity"
| "num_add MinusInfinity _ = MinusInfinity"
| "num_add _ MinusInfinity = MinusInfinity"

text \<open>Reading a property that holds a number, in a numeric context.\<close>

definition to_num :: "num option \<Rightarrow> num" where
  "to_num v = (case v of None \<Rightarrow> NaN | Some n \<Rightarrow> n)"

datatype error = TypeError

section \<open>Graph Builder: buildAdjacencyList\<close>

text \<open>\<^verbatim>\<open>if (!graph[key]) graph[key] = {};\<close> An adjacency object is always truthy.\<close>

definition ensure_node :: "key \<Rightarrow> graph \<Rightarrow> graph" where
  "ensure_node k graph = (case map_of graph k of None \<Rightarrow> graph @ [(k, [])] | Some _ \<Rightarrow> graph)"

text \<open>The body of the \<^verbatim>\<open>for\<close> loop, for the segment from \<open>coords[i]\<close> to \<open>coords[i + 1]\<close>.\<close>

definition add_segment :: "(coord \<Rightarrow> coord \<Rightarrow> real) \<Rightarrow> coord \<Rightarrow> coord \<Rightarrow> graph \<Rightarrow> graph" where
  "add_segment distanceTo c1 c2 graph =
     (let key1 = JSON_stringify c1;
          key2 = JSON_stringify c2;
          graph = ensure_node key1 graph;
          graph = ensure_node key2 graph;
          distance = distanceTo c1 c2;
          graph = AList.map_entry key1 (AList.update key2 distance) graph;
          graph = AList.map_entry key2 (AList.update key1 distance) graph
      in graph)"

text \<open>\<^verbatim>\<open>for (let i = 0; i < coords.length - 1; i++)\<close>: runs over the consecutive pairs.\<close>

fun add_segments :: "(coord \<Rightarrow> coord \<Rightarrow> real) \<Rightarrow> coord list \<Rightarrow> graph \<Rightarrow> graph" where
  "add_segments distanceTo (c1 # c2 # cs) graph =
     add_segments distanceTo (c2 # cs) (add_segment distanceTo c1 c2 graph)"
| "add_segments distanceTo cs graph = graph"

text \<open>\<^verbatim>\<open>road.geometry.coordinates.map(([lng, lat]) => [lat, lng])\<close>\<close>

definition transpose_coords :: "road \<Rightarrow> coord list" where
  "transpose_coords coordinates = map (\<lambda>(lng, lat). (lat, lng)) coordinates"

definition buildAdjacencyList :: "(coord \<Rightarrow> coord \<Rightarrow> real) \<Rightarrow> road list \<Rightarrow> graph" where
  "buildAdjacencyList distanceTo features =
     foldl (\<lambda>graph road. add_segments distanceTo (transpose_coords road) graph) [] features"

section \<open>Nearest-Node Resolver: findNearestNode\<close>

definition nearer :: "(coord \<Rightarrow> coord \<Rightarrow> real) \<Rightarrow> coord \<Rightarrow> key option \<times> num \<Rightarrow> key \<Rightarrow> key option \<times> num" where
  "nearer distanceTo latlng acc node =
     (let nearest = fst acc;
          minDistance = snd acc;
          nodeCoords = JSON_parse node;
          distance = Fin (distanceTo latlng nodeCoords)
      in if num_lt distance minDistance then (Some node, distance) else (nearest, minDistance))"

definition findNearestNode :: "(coord \<Rightarrow> coord \<Rightarrow> real) \<Rightarrow> graph \<Rightarrow> coord \<Rightarrow> key option" where
  "findNearestNode distanceTo adjacencyList latlng =
     fst (foldl (nearer distanceTo latlng) (None, Infinity) (map fst adjacencyList))"

section \<open>Shortest-Path Engine: dijkstra\<close>

text \<open>
  \<open>previous\<close> is only ever read by the truthiness test of \<^verbatim>\<open>while (step)\<close>, where
  \<^verbatim>\<open>null\<close> and \<^verbatim>\<open>undefined\<close> behave alike: both are \<open>None\<close>. \<open>unvisited\<close> is a
  \<^verbatim>\<open>Set\<close>, which enumerates in insertion order.
\<close>

record dstate =
  distances :: "key \<rightharpoonup> num"
  previous :: "key \<rightharpoonup> key"
  unvisited :: "key list"

definition init_node :: "dstate \<Rightarrow> key \<Rightarrow> dstate" where
  "init_node st node =
     st\<lparr>distances := (distances st)(node \<mapsto> Infinity), previous := (previous st)(node := None)\<rparr>"

definition init_state :: "graph \<Rightarrow> key \<Rightarrow> dstate" where
  "init_state adjacencyList start =
     (let st = \<lparr>distances = Map.empty, previous = Map.empty, unvisited = map fst adjacencyList\<rparr>;
          st = foldl init_node st (map fst adjacencyList)
      in st\<lparr>distances := (distances st)(start \<mapsto> Fin 0)\<rparr>)"

text \<open>The callback of \<^verbatim>\<open>reduce\<close>.\<close>

definition closer :: "(key \<rightharpoonup> num) \<Rightarrow> key \<Rightarrow> key \<Rightarrow> key" where
  "closer d minNode node = (if num_lt (to_num (d node)) (to_num (d minNode)) then node else minNode)"

text \<open>The callback of \<^verbatim>\<open>Object.keys(adjacencyList[current]).forEach\<close>.\<close>

definition relax :: "adjacency \<Rightarrow> key \<Rightarrow> dstate \<Rightarrow> key \<Rightarrow> dstate" where
  "relax adj current st neighbor =
     (let alt = num_add (to_num (distances st current)) (to_num (map_option Fin (map_of adj neighbor)))
      in if num_lt alt (to_num (distances st neighbor))
         then st\<lparr>distances := (distances st)(neighbor \<mapsto> alt),
                 previous := (previous st)(neighbor \<mapsto> current)\<rparr>
         else st)"

text \<open>
  One pass through the body of \<^verbatim>\<open>while (unvisited.size)\<close>: it leaves the loop by
  \<^verbatim>\<open>break\<close>, throws, or falls through to the next test of the loop condition.
  \<^verbatim>\<open>reduce\<close> without an initial value starts from the first element and throws a
  TypeError on an empty array; \<^verbatim>\<open>Object.keys(adjacencyList[current])\<close> throws a
  TypeError when \<open>current\<close> is not a key of the graph.
\<close>

datatype step = Break | Throw error | Continue dstate

definition loop_body :: "graph \<Rightarrow> key \<Rightarrow> dstate \<Rightarrow> step" where
  "loop_body adjacencyList end st =
     (case unvisited st of
        [] \<Rightarrow> Throw TypeError
      | x # xs \<Rightarrow>
          (let current = foldl (closer (distances st)) x xs
           in if distances st current = Some Infinity then Break
              else if current = end then Break
              else (case map_of adjacencyList current of
                      None \<Rightarrow> Throw TypeError
                    | Some adj \<Rightarrow>
                        Continue (foldl (relax adj current)
                                    (st\<lparr>unvisited := removeAll current (unvisited st)\<rparr>)
                                    (map fst adj)))))"

lemma unvisited_relax: "unvisited (foldl (relax adj current) st ns) = unvisited st"
  by (induction ns arbitrary: st) (simp_all add: relax_def Let_def)

lemma closer_mem: "foldl (closer d) x xs \<in> set (x # xs)"
  by (induction xs arbitrary: x) (auto simp: closer_def)

lemma loop_body_Continue:
  assumes "loop_body g e st = Continue st'"
  obtains x xs adj where "unvisited st = x # xs"
    and "distances st (foldl (closer (distances st)) x xs) \<noteq> Some Infinity"
    and "foldl (closer (distances st)) x xs \<noteq> e"
    and "map_of g (foldl (closer (distances st)) x xs) = Some adj"
    and "st' = foldl (relax adj (foldl (closer (distances st)) x xs))
                 (st\<lparr>unvisited := removeAll (foldl (closer (distances st)) x xs) (unvisited st)\<rparr>)
                 (map fst adj)"
  using assms
  by (auto simp: loop_body_def Let_def split: list.splits if_splits option.splits)

lemma loop_body_decreases:
  assumes "loop_body g e st = Continue st'"
  shows "length (unvisited st') < length (unvisited st)"
proof -
  from assms obtain x xs adj where u: "unvisited st = x # xs"
    and st': "st' = foldl (relax adj (foldl (closer (distances st)) x xs))
                 (st\<lparr>unvisited := removeAll (foldl (closer (distances st)) x xs) (unvisited st)\<rparr>)
                 (map fst adj)"
    by (rule loop_body_Continue)
  have "foldl (closer (distances st)) x xs \<in> set (unvisited st)"
    unfolding u by (rule closer_mem)
  then have "length (removeAll (foldl (closer (distances st)) x xs) (unvisited st)) < length (unvisited st)"
    by (rule length_removeAll_less)
  then show ?thesis
    by (simp add: st' unvisited_relax)
qed

text \<open>The loop itself, and the number of passes through its body.\<close>

function main_loop :: "graph \<Rightarrow> key \<Rightarrow> dstate \<Rightarrow> error + dstate" where
  "main_loop adjacencyList end st =
     (if unvisited st = [] then Inr st
      else (case loop_body adjacencyList end st of
              Break \<Rightarrow> Inr st
            | Throw err \<Rightarrow> Inl err
            | Continue st' \<Rightarrow> main_loop adjacencyList end st'))"
  by pat_completeness auto
termination
  by (relation "measure (\<lambda>(g, e, st). length (unvisited st))") (simp_all add: loop_body_decreases)

function main_loop_iterations :: "graph \<Rightarrow> key \<Rightarrow> dstate \<Rightarrow> nat" where
  "main_loop_iterations adjacencyList end st =
     (if unvisited st = [] then 0
      else (case loop_body adjacencyList end st of
              Break \<Rightarrow> 1
            | Throw err \<Rightarrow> 1
            | Continue st' \<Rightarrow> Suc (main_loop_iterations adjacencyList end st')))"
  by pat_completeness auto
termination
  by (relation "measure (\<lambda>(g, e, st). length (unvisited st))") (simp_all add: loop_body_decreases)

declare main_loop.simps [simp del] main_loop_iterations.simps [simp del]

text \<open>
  The same loop with a budget of passes through its body: \<open>None\<close> when the budget is
  used up before the loop has ended.
\<close>

fun main_loop_bounded :: "nat \<Rightarrow> graph \<Rightarrow> key \<Rightarrow> dstate \<Rightarrow> (error + dstate) option" where
  "main_loop_bounded 0 adjacencyList end st = (if unvisited st = [] then Some (Inr st) else None)"
| "main_loop_bounded (Suc n) adjacencyList end st =
     (if unvisited st = [] then Some (Inr st)
      else (case loop_body adjacencyList end st of
              Break \<Rightarrow> Some (Inr st)
            | Throw err \<Rightarrow> Some (Inl err)
            | Continue st' \<Rightarrow> main_loop_bounded n adjacencyList end st'))"

text \<open>
  The second loop, \<^verbatim>\<open>while (step) { path.unshift(JSON.parse(step)); step = previous[step]; }\<close>.
  It does not end when \<open>previous\<close> has a cycle, so it is a partial function: \<open>None\<close> is
  "never returns".
\<close>

partial_function (option) reconstruct :: "(key \<rightharpoonup> key) \<Rightarrow> key option \<Rightarrow> coord list \<Rightarrow> coord list option" where
  "reconstruct prev step path =
     (case step of
        None \<Rightarrow> Some path
      | Some s \<Rightarrow> reconstruct prev (prev s) (JSON_parse s # path))"

datatype path_result = NullPath | Path "coord list"

text \<open>
  \<open>start\<close> and \<open>end\<close> are key strings or \<^verbatim>\<open>null\<close>; a key is never the empty string, so
  \<^verbatim>\<open>!start\<close> holds exactly for \<^verbatim>\<open>null\<close>. The result is \<open>None\<close> when the call never
  returns, \<open>Some (Inl e)\<close> when it throws and \<open>Some (Inr r)\<close> when it returns
  \<^verbatim>\<open>{ path: r }\<close>.
\<close>

definition dijkstra_loop :: "graph \<Rightarrow> key \<Rightarrow> key \<Rightarrow> error + dstate" where
  "dijkstra_loop adjacencyList start end = main_loop adjacencyList end (init_state adjacencyList start)"

definition dijkstra :: "graph \<Rightarrow> key option \<Rightarrow> key option \<Rightarrow> (error + path_result) option" where
  "dijkstra adjacencyList start end =
     (case (start, end) of
        (Some s, Some e) \<Rightarrow>
          (case dijkstra_loop adjacencyList s e of
             Inl err \<Rightarrow> Some (Inl err)
           | Inr st \<Rightarrow> map_option (\<lambda>path. Inr (Path path)) (reconstruct (previous st) (Some e) []))
      | _ \<Rightarrow> Some (Inr NullPath))"

section \<open>Navigation orchestration: handleNavigation\<close>

text \<open>
  A feature of the points document: \<^verbatim>\<open>properties.name\<close> and \<^verbatim>\<open>geometry.coordinates\<close>,
  the latter a (longitude, latitude) array, or absent. \<^verbatim>\<open>geoData.points\<close> is
  \<^verbatim>\<open>null\<close> until the document has loaded, and stays so when loading failed.
\<close>

record point_feature =
  properties_name :: string
  geometry_coordinates :: "coord option"

record app_state =
  geoData_points :: "point_feature list option"
  startPoint :: "string option"
  endPoint :: "string option"
  route :: "coord list option"
  adjacencyList :: graph

text \<open>\<^verbatim>\<open>!startPoint\<close>: \<^verbatim>\<open>null\<close> and the empty string are falsy.\<close>

definition falsy :: "string option \<Rightarrow> bool" where
  "falsy v = (v = None \<or> v = Some [])"

text \<open>\<^verbatim>\<open>features.find(p => p.properties.name === selected)?.geometry.coordinates\<close>\<close>

definition point_coords :: "point_feature list \<Rightarrow> string option \<Rightarrow> coord option" where
  "point_coords features selected =
     (case find (\<lambda>p. Some (properties_name p) = selected) features of
        None \<Rightarrow> None
      | Some p \<Rightarrow> geometry_coordinates p)"

text \<open>
  The result is \<open>None\<close> when the call never returns, \<open>Some (Inl e)\<close> when it throws, and
  otherwise \<open>Some (Inr (a, st'))\<close>: the message of the \<^verbatim>\<open>alert\<close> raised, if any, and the
  component state after the call.
\<close>

definition handleNavigation ::
  "(coord \<Rightarrow> coord \<Rightarrow> real) \<Rightarrow> app_state \<Rightarrow> (error + string option \<times> app_state) option" where
  "handleNavigation distanceTo st =
     (if falsy (startPoint st) \<or> falsy (endPoint st)
      then Some (Inr (Some ''Select both start and end points!'', st))
      else (case geoData_points st of
              None \<Rightarrow> Some (Inl TypeError)
            | Some features \<Rightarrow>
                (case (point_coords features (startPoint st), point_coords features (endPoint st)) of
                   (Some startCoords, Some endCoords) \<Rightarrow>
                     (let startNode = findNearestNode distanceTo (adjacencyList st)
                                        (snd startCoords, fst startCoords);
                          endNode = findNearestNode distanceTo (adjacencyList st)
                                        (snd endCoords, fst endCoords)
                      in if startNode = None \<or> endNode = None
                         then Some (Inr (Some ''Selected points are not connected to the road network!'', st))
                         else (case dijkstra (adjacencyList st) startNode endNode of
                                 None \<Rightarrow> None
                               | Some (Inl err) \<Rightarrow> Some (Inl err)
                               | Some (Inr NullPath) \<Rightarrow>
                                   Some (Inr (Some ''No valid path found between selected points.'',
                                              st\<lparr>route := None\<rparr>))
                               | Some (Inr (Path path)) \<Rightarrow>
                                   (if length path < 2
                                    then Some (Inr (Some ''No valid path found between selected points.'',
                                                    st\<lparr>route := None\<rparr>))
                                    else Some (Inr (None, st\<lparr>route := Some path\<rparr>)))))
                 | _ \<Rightarrow> Some (Inr (Some ''Invalid points selected!'', st)))))"

section \<open>Notions the properties are stated with\<close>

text \<open>The node set of a graph, and \<^verbatim>\<open>adjacencyList[a][b]\<close>.\<close>

definition nodes :: "graph \<Rightarrow> key set" where
  "nodes g = fst ` set g"

definition weight :: "graph \<Rightarrow> key \<Rightarrow> key \<Rightarrow> real option" where
  "weight g a b = (case map_of g a of None \<Rightarrow> None | Some adj \<Rightarrow> map_of adj b)"

text \<open>A sequence of nodes in which every consecutive pair is an edge of the graph.\<close>

fun walk :: "graph \<Rightarrow> key list \<Rightarrow> bool" where
  "walk g (a # b # p) = (weight g a b \<noteq> None \<and> walk g (b # p))"
| "walk g p = True"

fun path_weight :: "graph \<Rightarrow> key list \<Rightarrow> real" where
  "path_weight g (a # b # p) = (case weight g a b of None \<Rightarrow> 0 | Some w \<Rightarrow> w) + path_weight g (b # p)"
| "path_weight g p = 0"

definition route_from_to :: "graph \<Rightarrow> key \<Rightarrow> key \<Rightarrow> key list \<Rightarrow> bool" where
  "route_from_to g a b p = (p \<noteq> [] \<and> hd p = a \<and> last p = b \<and> walk g p)"

definition nonneg_weights :: "graph \<Rightarrow> bool" where
  "nonneg_weights g = (\<forall>(a, adj) \<in> set g. \<forall>(b, w) \<in> set adj. 0 \<le> w)"

text \<open>
  The segments of a coordinate sequence, in the order the loop visits them, and the
  segments of all features in processing order.
\<close>

definition segments :: "coord list \<Rightarrow> (coord \<times> coord) list" where
  "segments cs = zip cs (tl cs)"

definition all_segments :: "road list \<Rightarrow> (coord \<times> coord) list" where
  "all_segments features = concat (map (\<lambda>road. segments (transpose_coords road)) features)"

definition same_segment :: "coord \<times> coord \<Rightarrow> coord \<times> coord \<Rightarrow> bool" where
  "same_segment s t = (t = s \<or> t = (snd s, fst s))"

definition add_all :: "(coord \<Rightarrow> coord \<Rightarrow> real) \<Rightarrow> graph \<Rightarrow> (coord \<times> coord) list \<Rightarrow> graph" where
  "add_all D g segs = foldl (\<lambda>g s. add_segment D (fst s) (snd s) g) g segs"

text \<open>
  A JavaScript object holds each key once. A graph is well formed when it and each of its
  adjacency objects do.
\<close>

definition js_object :: "('k \<times> 'v) list \<Rightarrow> bool" where
  "js_object xs = distinct (map fst xs)"

definition wf_graph :: "graph \<Rightarrow> bool" where
  "wf_graph g = (js_object g \<and> (\<forall>(a, adj) \<in> set g. js_object adj))"

text \<open>
  A sample distance function for the concrete examples: the taxicab distance. It is
  non-negative, symmetric and zero between equal coordinates, as \<^verbatim>\<open>distanceTo\<close> is.
\<close>

definition taxicab :: "coord \<Rightarrow> coord \<Rightarrow> real" where
  "taxicab a b = \<bar>fst a - fst b\<bar> + \<bar>snd a - snd b\<bar>"

text \<open>
  The orchestration has resolved both selected names to the graph nodes \<open>s\<close> and \<open>e\<close>:
  both names are chosen, both have a point geometry, and \<open>findNearestNode\<close>, called on
  the transposed coordinates, returned \<open>s\<close> and \<open>e\<close>.
\<close>

definition resolved :: "(coord \<Rightarrow> coord \<Rightarrow> real) \<Rightarrow> app_state \<Rightarrow> key \<Rightarrow> key \<Rightarrow> bool" where
  "resolved distanceTo st s e =
     (\<not> falsy (startPoint st) \<and> \<not> falsy (endPoint st) \<and>
      (case geoData_points st of
         None \<Rightarrow> False
       | Some features \<Rightarrow>
           (case (point_coords features (startPoint st), point_coords features (endPoint st)) of
              (Some startCoords, Some endCoords) \<Rightarrow>
                findNearestNode distanceTo (adjacencyList st) (snd startCoords, fst startCoords) = Some s \<and>
                findNearestNode distanceTo (adjacencyList st) (snd endCoords, fst endCoords) = Some e
            | _ \<Rightarrow> False)))"

text \<open>
  The scenario of the specification: nodes A \<open>(0,0)\<close>, B \<open>(0,1)\<close>, C \<open>(1,1)\<close>, edges
  A--B of weight 10 and B--C of weight 5, no edge A--C; and a component state over it
  with four points of interest, one of them without coordinates. The points are given
  as (longitude, latitude): the Cafe, at longitude 1 and latitude 0, lies on node B.
\<close>

abbreviation node_A :: key where "node_A \<equiv> JSON_stringify (0, 0)"
abbreviation node_B :: key where "node_B \<equiv> JSON_stringify (0, 1)"
abbreviation node_C :: key where "node_C \<equiv> JSON_stringify (1, 1)"

definition scenario_graph :: graph where
  "scenario_graph =
     [(node_A, [(node_B, 10)]),
      (node_B, [(node_A, 10), (node_C, 5)]),
      (node_C, [(node_B, 5)])]"

definition scenario_state :: "string \<Rightarrow> string \<Rightarrow> app_state" where
  "scenario_state a b =
     \<lparr>geoData_points = Some [\<lparr>properties_name = ''Library'', geometry_coordinates = Some (0, 0)\<rparr>,
                              \<lparr>properties_name = ''Gate'', geometry_coordinates = Some (1, 1)\<rparr>,
                              \<lparr>properties_name = ''Cafe'', geometry_coordinates = Some (1, 0)\<rparr>,
                              \<lparr>properties_name = ''Well'', geometry_coordinates = None\<rparr>],
      startPoint = Some a, endPoint = Some b, route = Some [(5, 5), (6, 6)],
      adjacencyList = scenario_graph\<rparr>"

text \<open>
  What holds of the engine's state on every graph, whatever its weights: the unvisited
  keys are nodes, no distance is \<^verbatim>\<open>NaN\<close>, \<open>distances\<close> is defined on the nodes and on
  \<open>start\<close>, a node with a predecessor has a distance below \<^verbatim>\<open>Infinity\<close>, and a node
  with a distance below \<^verbatim>\<open>Infinity\<close> can be reached from \<open>start\<close>.
\<close>

definition reach_inv :: "graph \<Rightarrow> key \<Rightarrow> dstate \<Rightarrow> bool" where
  "reach_inv g s st =
     (set (unvisited st) \<subseteq> nodes g \<and>
      (\<forall>k. distances st k \<noteq> Some NaN) \<and>
      (\<forall>k. distances st k \<noteq> None \<longleftrightarrow> k = s \<or> k \<in> nodes g) \<and>
      (\<forall>v u. previous st v = Some u \<longrightarrow> num_lt (to_num (distances st v)) Infinity) \<and>
      (\<forall>v. num_lt (to_num (distances st v)) Infinity \<longrightarrow> (\<exists>p. route_from_to g s v p)))"

text \<open>A graph built from two road features that share no coordinate.\<close>

definition two_components :: graph where
  "two_components = buildAdjacencyList taxicab [[(0, 0), (0, 1)], [(5, 5), (5, 6)]]"

text \<open>The two keys of a segment, in either order.\<close>

definition ends :: "coord \<Rightarrow> coord \<Rightarrow> key \<Rightarrow> key \<Rightarrow> bool" where
  "ends a b x y =
     ((x = JSON_stringify a \<and> y = JSON_stringify b) \<or> (x = JSON_stringify b \<and> y = JSON_stringify a))"

text \<open>
  \<open>chain prev v p\<close>: following \<open>prev\<close> backwards from \<open>v\<close> ends, and \<open>p\<close> is the
  sequence of keys met, in forward order.
\<close>

inductive chain :: "(key \<rightharpoonup> key) \<Rightarrow> key \<Rightarrow> key list \<Rightarrow> bool" for prev where
  chain_start: "prev v = None \<Longrightarrow> chain prev v [v]"
| chain_step: "prev v = Some u \<Longrightarrow> chain prev u p \<Longrightarrow> chain prev v (p @ [v])"

text \<open>
  The weight of a sequence of nodes as the engine accumulates it: starting from \<open>acc\<close>,
  each edge weight is added in turn, in the order of the sequence, and every sum is
  rounded to a double. \<open>path_weight\<close> above is the exact sum of the same weights.
\<close>

fun double_weight_from :: "graph \<Rightarrow> num \<Rightarrow> key list \<Rightarrow> num" where
  "double_weight_from g acc (a # b # p) =
     double_weight_from g (num_add acc (to_num (map_option Fin (weight g a b)))) (b # p)"
| "double_weight_from g acc p = acc"

definition double_weight :: "graph \<Rightarrow> key list \<Rightarrow> num" where
  "double_weight g p = double_weight_from g (Fin 0) p"

text \<open>The value of \<^verbatim>\<open>distances[end]\<close> when the main loop has ended.\<close>

definition computed_distance :: "graph \<Rightarrow> key \<Rightarrow> key \<Rightarrow> num option" where
  "computed_distance g s e = (case dijkstra_loop g s e of Inl err \<Rightarrow> None | Inr st \<Rightarrow> distances st e)"

text \<open>A number that is \<^verbatim>\<open>Infinity\<close> or a non-negative double.\<close>

definition nonneg_num :: "num \<Rightarrow> bool" where
  "nonneg_num n = (case n of Fin x \<Rightarrow> 0 \<le> x \<and> double x | Infinity \<Rightarrow> True | _ \<Rightarrow> False)"

text \<open>
  The nodes the loop has taken out of \<open>unvisited\<close>; an edge whose far end cannot be
  improved through it; and what holds of the engine's state on a graph with non-negative
  weights: every finite distance is a non-negative double, the accumulated weight of the
  route that \<open>previous\<close> records (\<open>tree_inv\<close>), and the visited nodes are final
  (\<open>settled_inv\<close>). \<open>scan_inv\<close> is the same in the middle of the pass over the
  neighbours of \<open>c\<close>, of which those in \<open>P\<close> are done.
\<close>

definition visited :: "graph \<Rightarrow> dstate \<Rightarrow> key set" where
  "visited g st = nodes g - set (unvisited st)"

definition relaxed :: "graph \<Rightarrow> dstate \<Rightarrow> key \<Rightarrow> key \<Rightarrow> bool" where
  "relaxed g st a b =
     (\<forall>w x. weight g a b = Some w \<and> distances st a = Some (Fin x) \<longrightarrow>
        \<not> num_lt (num_add (Fin x) (Fin w)) (to_num (distances st b)))"

definition tree_inv :: "graph \<Rightarrow> key \<Rightarrow> dstate \<Rightarrow> bool" where
  "tree_inv g s st =
     (distances st s = Some (Fin 0) \<and> previous st s = None \<and>
      (\<forall>v. distances st v \<noteq> Some MinusInfinity) \<and>
      (\<forall>v x. distances st v = Some (Fin x) \<longrightarrow>
         0 \<le> x \<and> double x \<and>
         (\<exists>p. chain (previous st) v p \<and> hd p = s \<and> walk g p \<and> double_weight g p = Fin x \<and>
              set (butlast p) \<subseteq> visited g st)))"

definition settled_inv :: "graph \<Rightarrow> dstate \<Rightarrow> bool" where
  "settled_inv g st =
     (\<forall>a \<in> visited g st.
        (\<exists>x. distances st a = Some (Fin x)) \<and>
        (\<forall>b. relaxed g st a b) \<and>
        (\<forall>b \<in> set (unvisited st). \<forall>x y.
           distances st a = Some (Fin x) \<and> distances st b = Some (Fin y) \<longrightarrow> x \<le> y))"

definition scan_inv :: "graph \<Rightarrow> key \<Rightarrow> key \<Rightarrow> real \<Rightarrow> key set \<Rightarrow> dstate \<Rightarrow> bool" where
  "scan_inv g s c du P st =
     (reach_inv g s st \<and> tree_inv g s st \<and> c \<in> visited g st \<and> distances st c = Some (Fin du) \<and>
      (\<forall>a \<in> visited g st. \<exists>x. distances st a = Some (Fin x) \<and> x \<le> du) \<and>
      (\<forall>b \<in> set (unvisited st). \<forall>y. distances st b = Some (Fin y) \<longrightarrow> du \<le> y) \<and>
      (\<forall>a \<in> visited g st. \<forall>b. a \<noteq> c \<or> b \<in> P \<longrightarrow> relaxed g st a b))"

definition dijkstra_inv :: "graph \<Rightarrow> key \<Rightarrow> dstate \<Rightarrow> bool" where
  "dijkstra_inv g s st = (reach_inv g s st \<and> tree_inv g s st \<and> settled_inv g st)"

text \<open>The scenario graph with a direct edge A--C of weight 20 added.\<close>

definition triangle_graph :: graph where
  "triangle_graph =
     [(node_A, [(node_B, 10), (node_C, 20)]),
      (node_B, [(node_A, 10), (node_C, 5)]),
      (node_C, [(node_A, 20), (node_B, 5)])]"

text \<open>
  Two graphs on which rounding shows. Their weights are the doubles \<open>1\<close>,
  \<open>1 + 1 / 2 ^ 52\<close>, which is the double that follows \<open>1\<close>, and \<open>3 / 2 ^ 54\<close>,
  which is three quarters of the distance between the two.
\<close>

definition w_AC :: real where
  "w_AC = 1 + 1 / 2 ^ 52"

definition w_BC :: real where
  "w_BC = 3 / 2 ^ 54"

definition rounding_triangle :: graph where
  "rounding_triangle =
     [(node_A, [(node_B, 1), (node_C, w_AC)]),
      (node_B, [(node_A, 1), (node_C, w_BC)]),
      (node_C, [(node_A, w_AC), (node_B, w_BC)])]"

definition rounding_chain :: graph where
  "rounding_chain =
     [(node_A, [(node_B, 1)]),
      (node_B, [(node_A, 1), (node_C, w_BC)]),
      (node_C, [(node_B, w_BC)])]"

text \<open>
  The coordinates, as the points document gives them, of the points the two selected
  names stand for.
\<close>

definition selected_coords :: "app_state \<Rightarrow> coord set" where
  "selected_coords st =
     (case geoData_points st of
        None \<Rightarrow> {}
      | Some features \<Rightarrow>
          {c. point_coords features (startPoint st) = Some c \<or> point_coords features (endPoint st) = Some c})"

section \<open>Rounding to a double\<close>

lemma round_even_of_int [simp]: "round_even (of_int m) = m"
  by (simp add: round_even_def)

lemma round_even_bounds: "of_int (round_even q) - 1 / 2 \<le> q" "q \<le> of_int (round_even q) + 1 / 2"
  unfolding round_even_def Let_def by (auto; linarith)+

lemma round_even_mono:
  assumes "q \<le> q'"
  shows "round_even q \<le> round_even q'"
proof (cases "\<lfloor>q\<rfloor> = \<lfloor>q'\<rfloor>")
  case True
  with assms have "q - of_int \<lfloor>q\<rfloor> \<le> q' - of_int \<lfloor>q'\<rfloor>" by simp
  with True show ?thesis
    unfolding round_even_def Let_def by auto
next
  case False
  with assms have "\<lfloor>q\<rfloor> + 1 \<le> \<lfloor>q'\<rfloor>"
    using floor_mono[OF assms] by linarith
  moreover have "round_even q \<le> \<lfloor>q\<rfloor> + 1"
    unfolding round_even_def Let_def by auto
  moreover have "\<lfloor>q'\<rfloor> \<le> round_even q'"
    unfolding round_even_def Let_def by auto
  ultimately show ?thesis by linarith
qed

lemma round_even_le: "q \<le> of_int m \<Longrightarrow> round_even q \<le> m"
  using round_even_mono[of q "of_int m"] by simp

lemma round_even_ge: "of_int m \<le> q \<Longrightarrow> m \<le> round_even q"
  using round_even_mono[of "of_int m" q] by simp

lemma two_powi_pos [simp]: "0 < (2 :: real) powi k"
  by simp

lemma two_powi_mono: "k \<le> l \<Longrightarrow> (2 :: real) powi k \<le> 2 powi l"
  by (rule power_int_increasing) simp_all

lemma two_powi_strict_mono: "k < l \<Longrightarrow> (2 :: real) powi k < 2 powi l"
  by (rule power_int_strict_increasing) simp_all

lemma two_powi_le_iff: "(2 :: real) powi k \<le> 2 powi l \<longleftrightarrow> k \<le> l"
  using two_powi_mono[of k l] two_powi_strict_mono[of l k] by (auto simp: not_le[symmetric])

lemma two_powi_less_iff: "(2 :: real) powi k < 2 powi l \<longleftrightarrow> k < l"
  using two_powi_le_iff[of l k] by (auto simp: not_le[symmetric])

lemma two_powi_Suc: "(2 :: real) powi (k + 1) = 2 * 2 powi k"
  by (simp add: power_int_add)

lemma expo_ge: "- 1022 \<le> expo x"
proof (cases "\<bar>x\<bar> < 2 powi (- 1022)")
  case True
  then show ?thesis by (simp add: expo_def)
next
  case False
  then have x: "2 powi (- 1022) \<le> \<bar>x\<bar>" by simp
  then have pos: "0 < \<bar>x\<bar>"
    using two_powi_pos[of "- 1022"] by linarith
  have "\<bar>x\<bar> < 2 powr (of_int \<lfloor>log 2 \<bar>x\<bar>\<rfloor> + 1)"
    using floor_log_eq_powr_iff[OF pos, of 2 "\<lfloor>log 2 \<bar>x\<bar>\<rfloor>"] by simp
  then have "\<bar>x\<bar> < 2 powi (\<lfloor>log 2 \<bar>x\<bar>\<rfloor> + 1)"
    using powr_real_of_int'[of 2 "\<lfloor>log 2 \<bar>x\<bar>\<rfloor> + 1"] by simp
  with x have "(2 :: real) powi (- 1022) < 2 powi (\<lfloor>log 2 \<bar>x\<bar>\<rfloor> + 1)" by linarith
  then have "- 1022 < \<lfloor>log 2 \<bar>x\<bar>\<rfloor> + 1"
    by (simp only: two_powi_less_iff)
  with False show ?thesis by (simp add: expo_def)
qed

lemma expo_upper: "\<bar>x\<bar> < 2 powi (expo x + 1)"
proof (cases "\<bar>x\<bar> < 2 powi (- 1022)")
  case True
  moreover have "(2 :: real) powi (- 1022) \<le> 2 powi (- 1022 + 1)"
    by (rule two_powi_mono) simp
  ultimately show ?thesis by (simp add: expo_def)
next
  case False
  then have x: "2 powi (- 1022) \<le> \<bar>x\<bar>" by simp
  then have pos: "0 < \<bar>x\<bar>"
    using two_powi_pos[of "- 1022"] by linarith
  have "\<bar>x\<bar> < 2 powr (of_int \<lfloor>log 2 \<bar>x\<bar>\<rfloor> + 1)"
    using floor_log_eq_powr_iff[OF pos, of 2 "\<lfloor>log 2 \<bar>x\<bar>\<rfloor>"] by simp
  then have "\<bar>x\<bar> < 2 powi (\<lfloor>log 2 \<bar>x\<bar>\<rfloor> + 1)"
    using powr_real_of_int'[of 2 "\<lfloor>log 2 \<bar>x\<bar>\<rfloor> + 1"] by simp
  with False show ?thesis by (simp add: expo_def)
qed

lemma expo_lower: "- 1022 < expo x \<Longrightarrow> 2 powi (expo x) \<le> \<bar>x\<bar>"
proof (cases "\<bar>x\<bar> < 2 powi (- 1022)")
  case True
  moreover assume "- 1022 < expo x"
  ultimately show ?thesis by (simp add: expo_def)
next
  case False
  then have x: "2 powi (- 1022) \<le> \<bar>x\<bar>" by simp
  then have pos: "0 < \<bar>x\<bar>"
    using two_powi_pos[of "- 1022"] by linarith
  have "2 powr (of_int \<lfloor>log 2 \<bar>x\<bar>\<rfloor>) \<le> \<bar>x\<bar>"
    using floor_log_eq_powr_iff[OF pos, of 2 "\<lfloor>log 2 \<bar>x\<bar>\<rfloor>"] by simp
  then have "2 powi \<lfloor>log 2 \<bar>x\<bar>\<rfloor> \<le> \<bar>x\<bar>"
    using powr_real_of_int'[of 2 "\<lfloor>log 2 \<bar>x\<bar>\<rfloor>"] by simp
  with False show ?thesis by (simp add: expo_def)
qed

lemma expo_eqI:
  assumes "- 1022 \<le> k" and "k = - 1022 \<or> 2 powi k \<le> \<bar>x\<bar>" and "\<bar>x\<bar> < 2 powi (k + 1)"
  shows "expo x = k"
proof (rule antisym)
  show "expo x \<le> k"
  proof (rule ccontr)
    assume "\<not> expo x \<le> k"
    then have "k + 1 \<le> expo x" and "- 1022 < expo x" using assms(1) by simp_all
    with expo_lower[of x] two_powi_mono[of "k + 1" "expo x"] assms(3) show False by linarith
  qed
  show "k \<le> expo x"
  proof (rule ccontr)
    assume "\<not> k \<le> expo x"
    then have "expo x + 1 \<le> k" by simp
    with expo_ge[of x] assms(2) have "2 powi k \<le> \<bar>x\<bar>" by auto
    with expo_upper[of x] two_powi_mono[OF \<open>expo x + 1 \<le> k\<close>] show False by linarith
  qed
qed

lemma expo_mono:
  assumes "\<bar>x\<bar> \<le> \<bar>y\<bar>"
  shows "expo x \<le> expo y"
proof (rule ccontr)
  assume "\<not> expo x \<le> expo y"
  then have "expo y + 1 \<le> expo x" by simp
  with expo_ge[of y] have "- 1022 < expo x" by simp
  from expo_lower[OF this] expo_upper[of y] two_powi_mono[OF \<open>expo y + 1 \<le> expo x\<close>] assms
  show False by linarith
qed

lemma ulp_pos [simp]: "0 < ulp x"
  by (simp add: ulp_def)

lemma ulp_nonneg [simp]: "0 \<le> ulp x"
  by (simp add: ulp_def)

lemma two_powi_shift: "(2 :: real) powi k = 2 ^ n * 2 powi (k - int n)"
proof -
  have "(2 :: real) powi (int n + (k - int n)) = 2 powi (int n) * 2 powi (k - int n)"
    by (rule power_int_add) simp
  then show ?thesis by simp
qed

lemma nearest_nonneg: "0 \<le> x \<Longrightarrow> 0 \<le> to_nearest x"
proof -
  assume "0 \<le> x"
  then have "of_int 0 \<le> x / ulp x"
    using ulp_pos[of x] by (simp add: divide_nonneg_pos)
  then have "0 \<le> round_even (x / ulp x)" by (rule round_even_ge)
  then show ?thesis by (simp add: to_nearest_def)
qed

lemma nearest_upper:
  assumes "0 \<le> x"
  shows "to_nearest x \<le> 2 powi (expo x + 1)"
proof -
  have "x < 2 powi (expo x + 1)"
    using expo_upper[of x] assms by simp
  also have "(2 :: real) powi (expo x + 1) = 2 ^ 53 * ulp x"
    using two_powi_shift[of "expo x + 1" 53] by (simp add: ulp_def)
  finally have "x / ulp x \<le> of_int (2 ^ 53)"
    by (simp add: pos_divide_le_eq)
  then have "round_even (x / ulp x) \<le> 2 ^ 53" by (rule round_even_le)
  then have "of_int (round_even (x / ulp x)) \<le> (2 ^ 53 :: real)"
    by (metis of_int_le_iff of_int_numeral of_int_power)
  then have "to_nearest x \<le> 2 ^ 53 * ulp x"
    by (simp add: to_nearest_def)
  with \<open>(2 :: real) powi (expo x + 1) = 2 ^ 53 * ulp x\<close> show ?thesis by simp
qed

lemma nearest_lower:
  assumes "0 \<le> x" and "- 1022 < expo x"
  shows "2 powi (expo x) \<le> to_nearest x"
proof -
  have e: "(2 :: real) powi (expo x) = 2 ^ 52 * ulp x"
    using two_powi_shift[of "expo x" 52] by (simp add: ulp_def)
  have "2 powi (expo x) \<le> x"
    using expo_lower[OF assms(2)] assms(1) by simp
  then have "of_int (2 ^ 52) \<le> x / ulp x"
    unfolding e by (simp add: pos_le_divide_eq)
  then have "2 ^ 52 \<le> round_even (x / ulp x)" by (rule round_even_ge)
  then have "(2 ^ 52 :: real) \<le> of_int (round_even (x / ulp x))"
    by (metis of_int_le_iff of_int_numeral of_int_power)
  then have "2 ^ 52 * ulp x \<le> to_nearest x"
    by (simp add: to_nearest_def)
  with e show ?thesis by simp
qed

lemma nearest_mono:
  assumes "0 \<le> x" and "x \<le> y"
  shows "to_nearest x \<le> to_nearest y"
proof (cases "expo x = expo y")
  case True
  then have u: "ulp x = ulp y" by (simp add: ulp_def)
  from assms(2) have "x / ulp y \<le> y / ulp y"
    by (simp add: divide_right_mono)
  then have "round_even (x / ulp y) \<le> round_even (y / ulp y)" by (rule round_even_mono)
  then show ?thesis
    by (simp add: to_nearest_def u)
next
  case False
  from assms have "expo x \<le> expo y" by (intro expo_mono) simp
  with False have lt: "expo x + 1 \<le> expo y" by simp
  with expo_ge[of x] have "- 1022 < expo y" by simp
  from nearest_lower[OF _ this] assms have "2 powi (expo y) \<le> to_nearest y" by simp
  moreover have "to_nearest x \<le> 2 powi (expo x + 1)"
    using assms(1) by (rule nearest_upper)
  moreover have "(2 :: real) powi (expo x + 1) \<le> 2 powi (expo y)"
    using lt by (rule two_powi_mono)
  ultimately show ?thesis by linarith
qed

lemma nearest_grid:
  assumes "x = of_int m * ulp x"
  shows "to_nearest x = x"
proof -
  have "x / ulp x = of_int m"
    using assms ulp_pos[of x] by (metis less_irrefl nonzero_mult_div_cancel_right)
  then show ?thesis
    using assms by (simp add: to_nearest_def)
qed

lemma nearest_idem:
  assumes "0 \<le> x"
  shows "to_nearest (to_nearest x) = to_nearest x"
proof -
  define m where "m = round_even (x / ulp x)"
  define r where "r = to_nearest x"
  have r: "r = of_int m * 2 powi (expo x - 52)"
    by (simp add: r_def m_def to_nearest_def ulp_def)
  have r0: "0 \<le> r" unfolding r_def using assms by (rule nearest_nonneg)
  have up: "r \<le> 2 powi (expo x + 1)" unfolding r_def using assms by (rule nearest_upper)
  show ?thesis
  proof (cases "r = 2 powi (expo x + 1)")
    case True
    have "expo r = expo x + 1"
    proof (rule expo_eqI)
      show "- 1022 \<le> expo x + 1" using expo_ge[of x] by simp
      show "expo x + 1 = - 1022 \<or> 2 powi (expo x + 1) \<le> \<bar>r\<bar>" using True by simp
      show "\<bar>r\<bar> < 2 powi (expo x + 1 + 1)" using True two_powi_strict_mono[of "expo x + 1" "expo x + 1 + 1"] by simp
    qed
    then have "ulp r = 2 powi (expo x + 1 - 52)" by (simp add: ulp_def)
    moreover have "(2 :: real) powi (expo x + 1) = 2 ^ 52 * 2 powi (expo x + 1 - 52)"
      using two_powi_shift[of "expo x + 1" 52] by simp
    ultimately have "r = of_int (2 ^ 52) * ulp r"
      using True by simp
    then have "to_nearest r = r" by (rule nearest_grid)
    then show ?thesis by (simp add: r_def)
  next
    case False
    with up have lt: "r < 2 powi (expo x + 1)" by simp
    have "expo r = expo x"
    proof (rule expo_eqI)
      show "- 1022 \<le> expo x" by (rule expo_ge)
      show "expo x = - 1022 \<or> 2 powi (expo x) \<le> \<bar>r\<bar>"
      proof (cases "expo x = - 1022")
        case True
        then show ?thesis by simp
      next
        case False
        with expo_ge[of x] have "- 1022 < expo x" by simp
        from nearest_lower[OF assms this] r0 show ?thesis by (simp add: r_def)
      qed
      show "\<bar>r\<bar> < 2 powi (expo x + 1)" using lt r0 by simp
    qed
    then have "ulp r = 2 powi (expo x - 52)" by (simp add: ulp_def)
    with r have "r = of_int m * ulp r" by simp
    then have "to_nearest r = r" by (rule nearest_grid)
    then show ?thesis by (simp add: r_def)
  qed
qed

lemma round_double_nonneg:
  assumes "0 \<le> x"
  obtains "round_double x = Infinity" "2 powi 1024 \<le> to_nearest x"
  | "round_double x = Fin (to_nearest x)" "0 \<le> to_nearest x" "to_nearest x < 2 powi 1024"
proof -
  have "0 \<le> to_nearest x" using assms by (rule nearest_nonneg)
  moreover have "- ((2 :: real) powi 1024) < 0" by simp
  ultimately have "\<not> to_nearest x \<le> - (2 powi 1024)" by linarith
  with \<open>0 \<le> to_nearest x\<close> that show ?thesis
    by (cases "2 powi 1024 \<le> to_nearest x") (simp_all add: round_double_def)
qed

lemma round_double_mono:
  assumes "0 \<le> x" and "x \<le> y"
  shows "\<not> num_lt (round_double y) (round_double x)"
proof -
  from assms have y: "0 \<le> y" by simp
  have m: "to_nearest x \<le> to_nearest y" using assms by (rule nearest_mono)
  show ?thesis
    using assms(1)
  proof (cases rule: round_double_nonneg)
    case 1
    with m have "2 powi 1024 \<le> to_nearest y" by simp
    with y have "round_double y = Infinity"
      by (cases rule: round_double_nonneg) simp_all
    with 1 show ?thesis by simp
  next
    case 2
    from y show ?thesis
      by (cases rule: round_double_nonneg) (use 2 m in simp_all)
  qed
qed

lemma double_round_double:
  assumes "0 \<le> x" and "round_double x = Fin r"
  shows "double r" and "0 \<le> r"
proof -
  from assms have r: "r = to_nearest x" "0 \<le> r" "r < 2 powi 1024"
    by (cases rule: round_double_nonneg; simp)+
  then have "to_nearest r = r"
    using nearest_idem[OF assms(1)] by simp
  with r show "double r"
    by (simp add: double_def round_double_def)
  show "0 \<le> r" by (rule r(2))
qed

lemma double_grid:
  assumes "x = of_int m * ulp x" and "\<bar>x\<bar> < 2 powi 1024"
  shows "double x"
proof -
  have "to_nearest x = x" using assms(1) by (rule nearest_grid)
  with assms(2) show ?thesis
    by (simp add: double_def round_double_def abs_less_iff)
qed

lemma double_0 [simp]: "double 0"
  by (rule double_grid[of _ 0]) simp_all

text \<open>Adding a non-negative number to a non-negative double never gives less.\<close>

lemma round_double_add_ge:
  assumes "double a" and "0 \<le> a" and "0 \<le> w"
  shows "\<not> num_lt (round_double (a + w)) (Fin a)"
  using round_double_mono[of a "a + w"] assms by (simp add: double_def)

lemma double_of_int:
  assumes "0 \<le> n" and "n \<le> 2 ^ 53"
  shows "double (of_int n)"
proof (cases "n = 0")
  case True
  then show ?thesis by simp
next
  case False
  with assms have n1: "1 \<le> n" by simp
  define x :: real where "x = of_int n"
  have x1: "1 \<le> x" using n1 by (simp add: x_def)
  have x53: "x \<le> 2 ^ 53"
    unfolding x_def using assms(2) by (metis of_int_le_iff of_int_numeral of_int_power)
  have e0: "0 \<le> expo x"
    using expo_mono[of 1 x] x1 expo_eqI[of 0 1] by simp
  have "x < 2 powi (53 + 1)"
    using x53 by (simp add: power_int_add)
  have e53: "expo x \<le> 53"
  proof (rule ccontr)
    assume "\<not> expo x \<le> 53"
    then have "54 \<le> expo x" by simp
    then have "(2 :: real) powi 54 \<le> 2 powi (expo x)" by (rule two_powi_mono)
    moreover have "2 powi (expo x) \<le> \<bar>x\<bar>"
      using \<open>54 \<le> expo x\<close> by (intro expo_lower) simp
    ultimately show False using x53 x1 by simp
  qed
  have big: "\<bar>x\<bar> < 2 powi 1024"
  proof -
    have "(2 :: real) powi 54 \<le> 2 powi 1024" by (rule two_powi_mono) simp
    with \<open>x < 2 powi (53 + 1)\<close> x1 show ?thesis by simp
  qed
  show ?thesis
  proof (cases "expo x = 53")
    case True
    then have "2 powi 53 \<le> \<bar>x\<bar>" using expo_lower[of x] by simp
    with x53 x1 have "x = 2 ^ 53" by simp
    moreover have "ulp x = 2" using True by (simp add: ulp_def)
    ultimately have "x = of_int (2 ^ 52) * ulp x" by simp
    from double_grid[OF this big] show ?thesis by (simp add: x_def)
  next
    case False
    with e53 have le: "expo x \<le> 52" by simp
    define k where "k = nat (52 - expo x)"
    have "ulp x * 2 ^ k = 2 powi (expo x - 52) * 2 powi (int k)"
      by (simp add: ulp_def)
    also have "\<dots> = 2 powi (expo x - 52 + int k)"
      by (rule power_int_add[symmetric]) simp
    also have "expo x - 52 + int k = 0" using le by (simp add: k_def)
    finally have "ulp x * 2 ^ k = 1" by simp
    then have "x = of_int (n * 2 ^ k) * ulp x"
      by (simp add: x_def mult.assoc mult.commute[of "2 ^ k"])
    from double_grid[OF this big] show ?thesis by (simp add: x_def)
  qed
qed

lemma round_double_numeral [simp]:
  "(numeral k :: int) \<le> 9007199254740992 \<Longrightarrow> round_double (numeral k) = Fin (numeral k)"
  using double_of_int[of "numeral k"] by (simp add: double_def)

lemma round_double_0 [simp]: "round_double 0 = Fin 0"
  using double_0 by (simp add: double_def)

lemma round_double_1 [simp]: "round_double 1 = Fin 1"
  using double_of_int[of 1] by (simp add: double_def)

section \<open>The Graph Builder, segment by segment\<close>

lemma nodes_map_of: "k \<in> nodes g \<longleftrightarrow> map_of g k \<noteq> None"
  by (simp add: nodes_def map_of_eq_None_iff)

lemma map_of_ensure_node:
  "map_of (ensure_node k g) x = (if x = k \<and> map_of g k = None then Some [] else map_of g x)"
  by (auto simp: ensure_node_def map_add_def split: option.splits)

lemma weight_ensure_node: "weight (ensure_node k g) x y = weight g x y"
  by (simp add: weight_def map_of_ensure_node)

lemma nodes_ensure_node: "nodes (ensure_node k g) = insert k (nodes g)"
  by (auto simp: nodes_map_of map_of_ensure_node split: if_splits)

lemma nodes_map_entry: "nodes (AList.map_entry k f g) = nodes g"
  by (simp add: nodes_def AList.dom_map_entry)

lemma weight_map_entry:
  "k \<in> nodes g \<Longrightarrow>
   weight (AList.map_entry k (AList.update j d) g) x y = (if x = k \<and> y = j then Some d else weight g x y)"
  by (auto simp: weight_def nodes_map_of map_of_map_entry AList.update_conv')

lemma if_merge: "(if P then s else if Q then s else w) = (if Q \<or> P then s else w)"
  by simp

lemma ends_sym: "ends a b x y \<longleftrightarrow> ends a b y x"
  unfolding ends_def by blast

lemma ends_same_segment: "ends a b (JSON_stringify x) (JSON_stringify y) \<longleftrightarrow> same_segment (x, y) (a, b)"
  unfolding ends_def same_segment_def by auto

lemma weight_add_segment:
  "weight (add_segment D a b g) x y = (if ends a b x y then Some (D a b) else weight g x y)"
proof -
  let ?a = "JSON_stringify a" and ?b = "JSON_stringify b"
  let ?g2 = "ensure_node ?b (ensure_node ?a g)"
  let ?g3 = "AList.map_entry ?a (AList.update ?b (D a b)) ?g2"
  have a: "?a \<in> nodes ?g2" and b: "?b \<in> nodes ?g3"
    by (simp_all add: nodes_map_entry nodes_ensure_node)
  have e1: "weight (add_segment D a b g) x y
        = weight (AList.map_entry ?b (AList.update ?a (D a b)) ?g3) x y"
    by (simp only: add_segment_def Let_def)
  have e2: "weight (AList.map_entry ?b (AList.update ?a (D a b)) ?g3) x y
        = (if x = ?b \<and> y = ?a then Some (D a b) else weight ?g3 x y)"
    by (rule weight_map_entry[OF b])
  have e3: "weight ?g3 x y = (if x = ?a \<and> y = ?b then Some (D a b) else weight ?g2 x y)"
    by (rule weight_map_entry[OF a])
  have e4: "weight ?g2 x y = weight g x y"
    by (simp only: weight_ensure_node)
  show ?thesis
    unfolding e1 e2 e3 e4 ends_def
    by (rule if_merge)
qed

lemma weight_add_segment_hit: "ends a b x y \<Longrightarrow> weight (add_segment D a b g) x y = Some (D a b)"
  unfolding weight_add_segment by (rule if_P)

lemma weight_add_segment_miss: "\<not> ends a b x y \<Longrightarrow> weight (add_segment D a b g) x y = weight g x y"
  unfolding weight_add_segment by (rule if_not_P)

lemma nodes_add_segment:
  "nodes (add_segment D a b g) = insert (JSON_stringify a) (insert (JSON_stringify b) (nodes g))"
  by (simp only: add_segment_def Let_def nodes_map_entry nodes_ensure_node) auto

lemma add_all_simps:
  "add_all D g [] = g"
  "add_all D g (s # segs) = add_all D (add_segment D (fst s) (snd s) g) segs"
  "add_all D g (pre @ post) = add_all D (add_all D g pre) post"
  by (simp_all add: add_all_def)

lemma add_segments_add_all: "add_segments D cs g = add_all D g (segments cs)"
  by (induction D cs g rule: add_segments.induct) (simp_all add: segments_def add_all_simps)

lemma build_add_all: "buildAdjacencyList D features = add_all D [] (all_segments features)"
proof -
  have "foldl (\<lambda>graph road. add_segments D (transpose_coords road) graph) g features
        = add_all D g (all_segments features)" for g
    by (induction features arbitrary: g) (simp_all add: all_segments_def add_segments_add_all add_all_simps)
  then show ?thesis by (simp add: buildAdjacencyList_def)
qed

lemma weight_add_all_other:
  "\<forall>s \<in> set segs. \<not> ends (fst s) (snd s) x y \<Longrightarrow> weight (add_all D g segs) x y = weight g x y"
proof (induction segs arbitrary: g)
  case Nil
  then show ?case by (simp add: add_all_simps)
next
  case (Cons s segs)
  have "\<not> ends (fst s) (snd s) x y" using Cons.prems by simp
  then have "weight (add_segment D (fst s) (snd s) g) x y = weight g x y"
    by (rule weight_add_segment_miss)
  with Cons show ?case by (simp add: add_all_simps)
qed

lemma weight_add_all_last:
  assumes "\<forall>s \<in> set post. \<not> same_segment (a, b) s"
  shows "weight (add_all D g (pre @ (a, b) # post)) (JSON_stringify a) (JSON_stringify b) = Some (D a b)"
    and "weight (add_all D g (pre @ (a, b) # post)) (JSON_stringify b) (JSON_stringify a) = Some (D a b)"
proof -
  have 1: "\<forall>s \<in> set post. \<not> ends (fst s) (snd s) (JSON_stringify a) (JSON_stringify b)"
    using assms by (simp add: ends_same_segment)
  then have 2: "\<forall>s \<in> set post. \<not> ends (fst s) (snd s) (JSON_stringify b) (JSON_stringify a)"
    using ends_sym by blast
  have h: "ends a b (JSON_stringify a) (JSON_stringify b)" "ends a b (JSON_stringify b) (JSON_stringify a)"
    by (simp_all add: ends_def)
  show "weight (add_all D g (pre @ (a, b) # post)) (JSON_stringify a) (JSON_stringify b) = Some (D a b)"
    by (simp add: add_all_simps weight_add_all_other[OF 1] weight_add_segment_hit[OF h(1)])
  show "weight (add_all D g (pre @ (a, b) # post)) (JSON_stringify b) (JSON_stringify a) = Some (D a b)"
    by (simp add: add_all_simps weight_add_all_other[OF 2] weight_add_segment_hit[OF h(2)])
qed

lemma symmetric_add_segment:
  assumes "\<And>u v r. weight g u v = Some r \<Longrightarrow> weight g v u = Some r"
    and "weight (add_segment D a b g) u v = Some r"
  shows "weight (add_segment D a b g) v u = Some r"
proof (cases "ends a b u v")
  case True
  then have "ends a b v u" using ends_sym by blast
  then have "weight (add_segment D a b g) v u = Some (D a b)"
    by (rule weight_add_segment_hit)
  moreover have "weight (add_segment D a b g) u v = Some (D a b)"
    using True by (rule weight_add_segment_hit)
  ultimately show ?thesis using assms(2) by (simp only:)
next
  case False
  then have f: "\<not> ends a b v u" using ends_sym by blast
  have "weight g u v = Some r"
    using assms(2) unfolding weight_add_segment_miss[OF False] .
  then have "weight g v u = Some r" by (rule assms(1))
  then show ?thesis unfolding weight_add_segment_miss[OF f] .
qed

lemma symmetric_add_all:
  "(\<And>u v r. weight g u v = Some r \<Longrightarrow> weight g v u = Some r) \<Longrightarrow>
   weight (add_all D g segs) x y = Some w \<Longrightarrow> weight (add_all D g segs) y x = Some w"
proof (induction segs arbitrary: g)
  case Nil
  from Nil(2) have "weight g x y = Some w" by (simp only: add_all_simps)
  then have "weight g y x = Some w" by (rule Nil(1))
  then show ?case by (simp only: add_all_simps)
next
  case (Cons s segs)
  have sym: "weight (add_segment D (fst s) (snd s) g) u v = Some r \<Longrightarrow>
             weight (add_segment D (fst s) (snd s) g) v u = Some r" for u v r
    by (rule symmetric_add_segment[OF Cons.prems(1)])
  from Cons.prems(2) have "weight (add_all D (add_segment D (fst s) (snd s) g) segs) x y = Some w"
    by (simp only: add_all_simps)
  from Cons.IH[OF sym this] show ?case
    by (simp only: add_all_simps)
qed

lemma self_loop_add_all:
  "weight (add_all D g segs) x x = Some w \<Longrightarrow>
   weight g x x \<noteq> None \<or> (JSON_parse x, JSON_parse x) \<in> set segs"
proof (induction segs arbitrary: g)
  case Nil
  then show ?case by (simp add: add_all_simps)
next
  case (Cons s segs)
  from Cons.IH[of "add_segment D (fst s) (snd s) g"] Cons.prems
  have "weight (add_segment D (fst s) (snd s) g) x x \<noteq> None \<or> (JSON_parse x, JSON_parse x) \<in> set segs"
    by (simp add: add_all_simps)
  then show ?case
  proof
    assume w: "weight (add_segment D (fst s) (snd s) g) x x \<noteq> None"
    show ?thesis
    proof (cases "ends (fst s) (snd s) x x")
      case True
      then have "s = (JSON_parse x, JSON_parse x)"
        by (cases s) (auto simp: ends_def)
      then show ?thesis by simp
    next
      case False
      from w show ?thesis unfolding weight_add_segment_miss[OF False] by simp
    qed
  next
    assume "(JSON_parse x, JSON_parse x) \<in> set segs"
    then show ?thesis by simp
  qed
qed

lemma nodes_add_all:
  "nodes (add_all D g segs) =
     nodes g \<union> JSON_stringify ` fst ` set segs \<union> JSON_stringify ` snd ` set segs"
  by (induction segs arbitrary: g) (auto simp: nodes_add_segment add_all_simps)

lemma js_object_ensure_node: "js_object g \<Longrightarrow> js_object (ensure_node k g)"
  by (auto simp: js_object_def ensure_node_def map_of_eq_None_iff split: option.splits)

lemma set_ensure_node: "set (ensure_node k g) \<subseteq> insert (k, []) (set g)"
  by (auto simp: ensure_node_def split: option.splits)

lemma set_map_entry:
  "p \<in> set (AList.map_entry k f g) \<Longrightarrow> p \<in> set g \<or> (\<exists>v. (k, v) \<in> set g \<and> p = (k, f v))"
  by (induction g) (auto split: if_splits)

lemma wf_graph_ensure_node:
  assumes "wf_graph g"
  shows "wf_graph (ensure_node k g)"
proof -
  have "js_object adj" if "(a, adj) \<in> set (ensure_node k g)" for a adj
  proof -
    from that set_ensure_node[of k g] have "(a, adj) = (k, []) \<or> (a, adj) \<in> set g"
      by blast
    with assms show ?thesis
      by (auto simp: wf_graph_def js_object_def)
  qed
  with assms show ?thesis
    by (auto simp: wf_graph_def js_object_ensure_node)
qed

lemma wf_graph_map_entry:
  assumes "wf_graph g"
  shows "wf_graph (AList.map_entry k (AList.update j d) g)"
proof -
  have "js_object (AList.map_entry k (AList.update j d) g)"
    using assms by (simp add: wf_graph_def js_object_def AList.distinct_map_entry)
  moreover have "js_object adj" if "(a, adj) \<in> set (AList.map_entry k (AList.update j d) g)" for a adj
  proof -
    from set_map_entry[OF that]
    consider "(a, adj) \<in> set g" | v where "(k, v) \<in> set g" "adj = AList.update j d v"
      by auto
    then show ?thesis
    proof cases
      case 1
      with assms show ?thesis by (auto simp: wf_graph_def)
    next
      case 2
      with assms have "js_object v" by (auto simp: wf_graph_def)
      with 2 show ?thesis by (simp add: js_object_def AList.distinct_update)
    qed
  qed
  ultimately show ?thesis
    by (auto simp: wf_graph_def)
qed

lemma wf_graph_add_segment: "wf_graph g \<Longrightarrow> wf_graph (add_segment D a b g)"
  by (simp only: add_segment_def Let_def wf_graph_map_entry wf_graph_ensure_node)

lemma wf_graph_add_all: "wf_graph g \<Longrightarrow> wf_graph (add_all D g segs)"
  by (induction segs arbitrary: g) (simp_all add: add_all_simps wf_graph_add_segment)

lemma repeated_segment:
  "(x, x) \<in> set (segments cs) \<Longrightarrow> \<not> distinct_adj cs"
  by (induction cs rule: induct_list012) (auto simp: segments_def)

lemma repeated_all_segments:
  assumes "(x, x) \<in> set (all_segments features)"
  shows "\<exists>road \<in> set features. \<not> distinct_adj road"
proof -
  from assms obtain road where r: "road \<in> set features"
    and "(x, x) \<in> set (segments (transpose_coords road))"
    by (auto simp: all_segments_def)
  then have "\<not> distinct_adj (transpose_coords road)"
    by (auto dest: repeated_segment)
  then have "\<not> distinct_adj road"
    unfolding transpose_coords_def by (auto dest: distinct_adj_mapI[where f = "\<lambda>(lng, lat). (lat, lng)"] simp: inj_on_def)
  with r show ?thesis by blast
qed

section \<open>Properties of the Graph Builder\<close>

lemmas builder_defs = buildAdjacencyList_def transpose_coords_def add_segment_def ensure_node_def Let_def

text \<open>
  C3. The graph built from any sequence of road features is symmetric: whenever the
  adjacency object of node \<open>a\<close> holds neighbour \<open>b\<close> with weight \<open>w\<close>, the adjacency
  object of \<open>b\<close> holds \<open>a\<close> with the same weight \<open>w\<close>.
\<close>

theorem buildAdjacencyList_symmetric:
  assumes "weight (buildAdjacencyList distanceTo features) a b = Some w"
  shows "weight (buildAdjacencyList distanceTo features) b a = Some w"
proof -
  have "weight [] u v = Some r \<Longrightarrow> weight [] v u = Some r" for u v r
    by (simp add: weight_def)
  from symmetric_add_all[OF this] assms show ?thesis
    unfolding build_add_all by blast
qed

theorem buildAdjacencyList_symmetric_witness:
  "weight (buildAdjacencyList taxicab [[(0, 0), (0, 1), (2, 1)]])
     (JSON_stringify (1, 0)) (JSON_stringify (1, 2)) = Some 2 \<and>
   weight (buildAdjacencyList taxicab [[(0, 0), (0, 1), (2, 1)]])
     (JSON_stringify (1, 2)) (JSON_stringify (1, 0)) = Some 2"
proof -
  have h: "weight (buildAdjacencyList taxicab [[(0, 0), (0, 1), (2, 1)]])
     (JSON_stringify (1, 0)) (JSON_stringify (1, 2)) = Some 2"
    by (simp add: builder_defs weight_def taxicab_def)
  from h buildAdjacencyList_symmetric[OF h] show ?thesis
    by (rule conjI)
qed

text \<open>
  C4, as stated: the built graph never has a self-loop, also when a feature repeats a
  coordinate. It fails: the loop body has no test for \<open>key1 = key2\<close>, so a feature whose
  coordinate sequence is \<open>[(0,0), (0,0)]\<close> stores the node of \<open>(0,0)\<close> in its own
  adjacency object, with the distance from the coordinate to itself as weight.
\<close>

theorem buildAdjacencyList_self_loop_counterexample:
  "weight (buildAdjacencyList taxicab [[(0, 0), (0, 0)]]) (JSON_stringify (0, 0)) (JSON_stringify (0, 0)) = Some 0"
  by (simp add: builder_defs weight_def taxicab_def)

text \<open>
  C4, amended: when no road feature holds the same coordinate twice in a row, the built
  graph has no self-loop: no node is a neighbour of itself.
\<close>

theorem buildAdjacencyList_no_self_loop:
  assumes "\<forall>road \<in> set features. distinct_adj road"
  shows "weight (buildAdjacencyList distanceTo features) a a = None"
proof (rule ccontr)
  assume "weight (buildAdjacencyList distanceTo features) a a \<noteq> None"
  then obtain w where "weight (add_all distanceTo [] (all_segments features)) a a = Some w"
    unfolding build_add_all by blast
  from self_loop_add_all[OF this] have "(JSON_parse a, JSON_parse a) \<in> set (all_segments features)"
    by (simp add: weight_def)
  from repeated_all_segments[OF this] assms show False
    by blast
qed

theorem buildAdjacencyList_no_self_loop_witness:
  "distinct_adj [(0 :: real, 0 :: real), (0, 1), (0, 0)] \<and>
   weight (buildAdjacencyList taxicab [[(0, 0), (0, 1), (0, 0)]])
     (JSON_stringify (0, 0)) (JSON_stringify (0, 0)) = None"
proof -
  have d: "distinct_adj [(0 :: real, 0 :: real), (0, 1), (0, 0)]"
    by simp
  then have h: "\<forall>road \<in> set ([[(0, 0), (0, 1), (0, 0)]] :: road list). distinct_adj road"
    by simp
  from d buildAdjacencyList_no_self_loop[OF h] show ?thesis
    by (rule conjI)
qed

text \<open>
  C7. When the same pair of endpoints is inserted more than once, in either orientation,
  the stored weight is the distance computed for the last such segment, in both
  directions; no adjacency object holds a neighbour twice, so there are no parallel
  edges and nothing accumulates. Built from the two features \<open>[(0,0),(0,1)]\<close> and
  \<open>[(0,1),(0,0)]\<close>, the graph has exactly two nodes and one edge, stored in both
  directions with the distance of the segment written last.
\<close>

theorem buildAdjacencyList_last_write_wins:
  assumes "all_segments features = pre @ (a, b) # post"
    and "\<forall>s \<in> set post. \<not> same_segment (a, b) s"
  shows "weight (buildAdjacencyList distanceTo features) (JSON_stringify a) (JSON_stringify b)
           = Some (distanceTo a b) \<and>
         weight (buildAdjacencyList distanceTo features) (JSON_stringify b) (JSON_stringify a)
           = Some (distanceTo a b) \<and>
         wf_graph (buildAdjacencyList distanceTo features) \<and>
         buildAdjacencyList distanceTo [[(0, 0), (0, 1)], [(0, 1), (0, 0)]] =
           [(JSON_stringify (0, 0), [(JSON_stringify (1, 0), distanceTo (1, 0) (0, 0))]),
            (JSON_stringify (1, 0), [(JSON_stringify (0, 0), distanceTo (1, 0) (0, 0))])]"
proof (intro conjI)
  show "weight (buildAdjacencyList distanceTo features) (JSON_stringify a) (JSON_stringify b)
          = Some (distanceTo a b)"
    unfolding build_add_all assms(1) by (rule weight_add_all_last(1)[OF assms(2)])
  show "weight (buildAdjacencyList distanceTo features) (JSON_stringify b) (JSON_stringify a)
          = Some (distanceTo a b)"
    unfolding build_add_all assms(1) by (rule weight_add_all_last(2)[OF assms(2)])
  have "wf_graph []"
    by (simp add: wf_graph_def js_object_def)
  then show "wf_graph (buildAdjacencyList distanceTo features)"
    unfolding build_add_all by (rule wf_graph_add_all)
  show "buildAdjacencyList distanceTo [[(0, 0), (0, 1)], [(0, 1), (0, 0)]] =
           [(JSON_stringify (0, 0), [(JSON_stringify (1, 0), distanceTo (1, 0) (0, 0))]),
            (JSON_stringify (1, 0), [(JSON_stringify (0, 0), distanceTo (1, 0) (0, 0))])]"
    by (simp add: builder_defs)
qed

theorem buildAdjacencyList_last_write_wins_witness:
  "all_segments [[(0, 0), (0, 1)], [(0, 1), (0, 0)], [(0, 1), (5, 5)]] =
     [((0, 0), (1, 0))] @ ((1, 0), (0, 0)) # [((1, 0), (5, 5))] \<and>
   \<not> same_segment ((1, 0), (0, 0)) ((1, 0), (5, 5)) \<and>
   weight (buildAdjacencyList (\<lambda>a b. 1 + fst a) [[(0, 0), (0, 1)], [(0, 1), (0, 0)], [(0, 1), (5, 5)]])
     (JSON_stringify (1, 0)) (JSON_stringify (0, 0)) = Some 2 \<and>
   weight (buildAdjacencyList (\<lambda>a b. 1 + fst a) [[(0, 0), (0, 1)], [(0, 1), (0, 0)], [(0, 1), (5, 5)]])
     (JSON_stringify (0, 0)) (JSON_stringify (1, 0)) = Some 2 \<and>
   wf_graph (buildAdjacencyList (\<lambda>a b. 1 + fst a) [[(0, 0), (0, 1)], [(0, 1), (0, 0)], [(0, 1), (5, 5)]])"
proof -
  have h1: "all_segments [[(0, 0), (0, 1)], [(0, 1), (0, 0)], [(0, 1), (5, 5)]] =
     [((0, 0), (1, 0))] @ ((1, 0), (0, 0)) # [((1, 0), (5, 5))]"
    by (simp add: all_segments_def segments_def transpose_coords_def)
  have s: "\<not> same_segment ((1 :: real, 0 :: real), (0 :: real, 0 :: real)) ((1, 0), (5, 5))"
    by (simp add: same_segment_def)
  then have h2: "\<forall>s \<in> set [((1 :: real, 0 :: real), (5 :: real, 5 :: real))]. \<not> same_segment ((1, 0), (0, 0)) s"
    by simp
  have two: "(1 :: real) + fst ((1 :: real, 0 :: real)) = 2"
    by simp
  from buildAdjacencyList_last_write_wins[OF h1 h2, of "\<lambda>a b. 1 + fst a"]
  have "weight (buildAdjacencyList (\<lambda>a b. 1 + fst a) [[(0, 0), (0, 1)], [(0, 1), (0, 0)], [(0, 1), (5, 5)]])
     (JSON_stringify (1, 0)) (JSON_stringify (0, 0)) = Some 2 \<and>
   weight (buildAdjacencyList (\<lambda>a b. 1 + fst a) [[(0, 0), (0, 1)], [(0, 1), (0, 0)], [(0, 1), (5, 5)]])
     (JSON_stringify (0, 0)) (JSON_stringify (1, 0)) = Some 2 \<and>
   wf_graph (buildAdjacencyList (\<lambda>a b. 1 + fst a) [[(0, 0), (0, 1)], [(0, 1), (0, 0)], [(0, 1), (5, 5)]])"
    unfolding two by blast
  with h1 s show ?thesis
    by blast
qed

section \<open>Properties of the Nearest-Node Resolver\<close>

lemma nearer_scan:
  "foldl (nearer D t) (None, Infinity) ns = (None, Infinity) \<and> ns = [] \<or>
   (\<exists>pre n post. ns = pre @ n # post \<and> foldl (nearer D t) (None, Infinity) ns = (Some n, Fin (D t (JSON_parse n))) \<and>
      (\<forall>m \<in> set pre. D t (JSON_parse n) < D t (JSON_parse m)) \<and> (\<forall>m \<in> set post. D t (JSON_parse n) \<le> D t (JSON_parse m)))"
proof (induction ns rule: rev_induct)
  case Nil
  then show ?case by simp
next
  case (snoc x ns)
  from snoc.IH show ?case
  proof (elim disjE conjE exE)
    assume "foldl (nearer D t) (None, Infinity) ns = (None, Infinity)" and "ns = []"
    then have "ns @ [x] = [] @ x # []"
      and "foldl (nearer D t) (None, Infinity) (ns @ [x]) = (Some x, Fin (D t (JSON_parse x)))"
      by (simp_all add: nearer_def)
    then show ?thesis by fastforce
  next
    fix pre n post
    assume ns: "ns = pre @ n # post"
      and f: "foldl (nearer D t) (None, Infinity) ns = (Some n, Fin (D t (JSON_parse n)))"
      and pre: "\<forall>m \<in> set pre. D t (JSON_parse n) < D t (JSON_parse m)" and post: "\<forall>m \<in> set post. D t (JSON_parse n) \<le> D t (JSON_parse m)"
    have step: "foldl (nearer D t) (None, Infinity) (ns @ [x]) =
          (if D t (JSON_parse x) < D t (JSON_parse n) then (Some x, Fin (D t (JSON_parse x))) else (Some n, Fin (D t (JSON_parse n))))"
      by (simp add: f nearer_def)
    show ?thesis
    proof (cases "D t (JSON_parse x) < D t (JSON_parse n)")
      case True
      have "D t (JSON_parse x) < D t (JSON_parse m)" if "m \<in> set ns" for m
      proof -
        from that have "m \<in> set pre \<or> m = n \<or> m \<in> set post"
          by (auto simp: ns)
        then have "D t (JSON_parse n) \<le> D t (JSON_parse m)"
          using pre post by auto
        with True show ?thesis by linarith
      qed
      then have "ns @ [x] = ns @ x # [] \<and>
          foldl (nearer D t) (None, Infinity) (ns @ [x]) = (Some x, Fin (D t (JSON_parse x))) \<and>
          (\<forall>m \<in> set ns. D t (JSON_parse x) < D t (JSON_parse m)) \<and> (\<forall>m \<in> set []. D t (JSON_parse x) \<le> D t (JSON_parse m))"
        using True unfolding step by simp
      then show ?thesis by (intro disjI2 exI)
    next
      case False
      have "ns @ [x] = pre @ n # (post @ [x]) \<and>
          foldl (nearer D t) (None, Infinity) (ns @ [x]) = (Some n, Fin (D t (JSON_parse n))) \<and>
          (\<forall>m \<in> set pre. D t (JSON_parse n) < D t (JSON_parse m)) \<and> (\<forall>m \<in> set (post @ [x]). D t (JSON_parse n) \<le> D t (JSON_parse m))"
        using False pre post unfolding step by (simp add: ns)
      then show ?thesis by (intro disjI2 exI)
    qed
  qed
qed

text \<open>
  C5. \<open>findNearestNode\<close> returns \<^verbatim>\<open>null\<close> exactly when the graph has no node.
  Otherwise it returns a node of the graph whose distance to the target is minimal,
  and the first such node in the enumeration order of the keys: every node before it
  is strictly farther from the target, every node after it at least as far.
\<close>

theorem findNearestNode_exact:
  "(findNearestNode distanceTo g target = None \<longleftrightarrow> nodes g = {}) \<and>
   (nodes g \<noteq> {} \<longrightarrow>
      (\<exists>pre n post. map fst g = pre @ n # post \<and>
         findNearestNode distanceTo g target = Some n \<and>
         (\<forall>m \<in> set pre. distanceTo target (JSON_parse n) < distanceTo target (JSON_parse m)) \<and>
         (\<forall>m \<in> set post. distanceTo target (JSON_parse n) \<le> distanceTo target (JSON_parse m))))"
proof -
  from nearer_scan[of distanceTo target "map fst g"]
  consider "foldl (nearer distanceTo target) (None, Infinity) (map fst g) = (None, Infinity)" "g = []"
    | pre n post where "map fst g = pre @ n # post"
      "foldl (nearer distanceTo target) (None, Infinity) (map fst g) = (Some n, Fin (distanceTo target (JSON_parse n)))"
      "\<forall>m \<in> set pre. distanceTo target (JSON_parse n) < distanceTo target (JSON_parse m)"
      "\<forall>m \<in> set post. distanceTo target (JSON_parse n) \<le> distanceTo target (JSON_parse m)"
    by auto
  then show ?thesis
  proof cases
    case 1
    then show ?thesis by (simp add: findNearestNode_def nodes_def)
  next
    case 2
    from 2(1) have g: "nodes g \<noteq> {}" by (auto simp: nodes_def)
    have r: "findNearestNode distanceTo g target = Some n"
      by (simp only: findNearestNode_def 2(2) fst_conv)
    have "\<exists>pre n post. map fst g = pre @ n # post \<and>
         findNearestNode distanceTo g target = Some n \<and>
         (\<forall>m \<in> set pre. distanceTo target (JSON_parse n) < distanceTo target (JSON_parse m)) \<and>
         (\<forall>m \<in> set post. distanceTo target (JSON_parse n) \<le> distanceTo target (JSON_parse m))"
      using 2(1) r 2(3,4) by (intro exI conjI)
    with g r show ?thesis
      by simp
  qed
qed

theorem findNearestNode_exact_witness:
  "nodes [(node_A, []), (JSON_stringify (2, 0), []), (JSON_stringify (0, 2), [])] \<noteq> {} \<and>
   findNearestNode taxicab [(node_A, []), (JSON_stringify (2, 0), []), (JSON_stringify (0, 2), [])] (1, 1)
     = Some node_A \<and>
   findNearestNode taxicab [(JSON_stringify (3, 3), []), (JSON_stringify (2, 0), []), (JSON_stringify (0, 2), [])] (1, 1)
     = Some (JSON_stringify (2, 0))"
  using findNearestNode_exact[of taxicab "[(node_A, []), (JSON_stringify (2, 0), []), (JSON_stringify (0, 2), [])]" "(1, 1)"]
  by (simp add: findNearestNode_def nearer_def taxicab_def nodes_def)

section \<open>The main loop of the engine\<close>

lemma foldl_init_node:
  "distances (foldl init_node st ns) k = (if k \<in> set ns then Some Infinity else distances st k)"
  "previous (foldl init_node st ns) k = (if k \<in> set ns then None else previous st k)"
  "unvisited (foldl init_node st ns) = unvisited st"
  by (induction ns arbitrary: st) (auto simp: init_node_def)

lemma init_state_simps:
  "distances (init_state g s) k = (if k = s then Some (Fin 0) else if k \<in> nodes g then Some Infinity else None)"
  "previous (init_state g s) k = None"
  "unvisited (init_state g s) = map fst g"
  by (simp_all add: init_state_def Let_def foldl_init_node nodes_def)

lemma main_loop_iterations_le: "main_loop_iterations g e st \<le> length (unvisited st)"
proof (induction g e st rule: main_loop_iterations.induct)
  case (1 g e st)
  show ?case
  proof (cases "unvisited st = []")
    case True
    then show ?thesis by (simp add: main_loop_iterations.simps)
  next
    case False
    then have pos: "1 \<le> length (unvisited st)"
      by (cases "unvisited st") simp_all
    show ?thesis
    proof (cases "loop_body g e st")
      case Break
      with False pos show ?thesis by (simp add: main_loop_iterations.simps)
    next
      case (Throw err)
      with False pos show ?thesis by (simp add: main_loop_iterations.simps)
    next
      case (Continue st')
      from "1.IH"[OF False Continue] loop_body_decreases[OF Continue] False Continue
      show ?thesis by (simp add: main_loop_iterations.simps[of g e st])
    qed
  qed
qed

lemma main_loop_bounded_enough:
  "length (unvisited st) \<le> n \<Longrightarrow> main_loop_bounded n g e st = Some (main_loop g e st)"
proof (induction n arbitrary: st)
  case 0
  then show ?case by (simp add: main_loop.simps)
next
  case (Suc n)
  show ?case
  proof (cases "loop_body g e st")
    case (Continue st')
    from loop_body_decreases[OF this] Suc.prems have "length (unvisited st') \<le> n"
      by simp
    from Suc.IH[OF this] Continue show ?thesis
      by (simp add: main_loop.simps[of g e st])
  qed (simp_all add: main_loop.simps[of g e st])
qed

text \<open>
  C10. The main loop of the engine terminates on every graph, for any start and end key.
  A pass through the loop body that does not leave the loop removes the selected node
  from \<open>unvisited\<close>, which gets strictly shorter; the other passes leave by \<^verbatim>\<open>break\<close>
  (the selected distance is \<^verbatim>\<open>Infinity\<close>, or the selected node is \<open>end\<close>). So the body
  is entered at most as many times as the graph has nodes: run with that budget of
  passes, the loop ends, with the result of \<open>main_loop\<close>.
\<close>

theorem main_loop_terminates:
  "(\<forall>st st'. loop_body g e st = Continue st' \<longrightarrow>
      (\<exists>current \<in> set (unvisited st). unvisited st' = removeAll current (unvisited st)) \<and>
      length (unvisited st') < length (unvisited st)) \<and>
   main_loop_bounded (length (map fst g)) g e (init_state g start) = Some (main_loop g e (init_state g start)) \<and>
   main_loop_iterations g e (init_state g start) \<le> length (map fst g) \<and>
   (js_object g \<longrightarrow> main_loop_iterations g e (init_state g start) \<le> card (nodes g))"
proof (intro conjI allI impI)
  fix st st'
  assume c: "loop_body g e st = Continue st'"
  then show "length (unvisited st') < length (unvisited st)"
    by (rule loop_body_decreases)
  from c obtain x xs adj where u: "unvisited st = x # xs"
    and st': "st' = foldl (relax adj (foldl (closer (distances st)) x xs))
                 (st\<lparr>unvisited := removeAll (foldl (closer (distances st)) x xs) (unvisited st)\<rparr>)
                 (map fst adj)"
    by (rule loop_body_Continue)
  have "foldl (closer (distances st)) x xs \<in> set (unvisited st)"
    unfolding u by (rule closer_mem)
  moreover have "unvisited st' = removeAll (foldl (closer (distances st)) x xs) (unvisited st)"
    by (simp add: st' unvisited_relax)
  ultimately show "\<exists>current \<in> set (unvisited st). unvisited st' = removeAll current (unvisited st)"
    by blast
next
  show "main_loop_bounded (length (map fst g)) g e (init_state g start) = Some (main_loop g e (init_state g start))"
    by (rule main_loop_bounded_enough) (simp add: init_state_simps)
  show le: "main_loop_iterations g e (init_state g start) \<le> length (map fst g)"
    using main_loop_iterations_le[of g e "init_state g start"] by (simp add: init_state_simps)
  assume "js_object g"
  then have "card (nodes g) = length (map fst g)"
    by (simp add: js_object_def nodes_def distinct_card flip: set_map)
  with le show "main_loop_iterations g e (init_state g start) \<le> card (nodes g)"
    by simp
qed

lemmas engine_defs = dijkstra_def dijkstra_loop_def init_state_def init_node_def loop_body_def
  closer_def relax_def to_num_def Let_def main_loop.simps main_loop_iterations.simps reconstruct.simps

theorem main_loop_terminates_witness:
  "js_object scenario_graph \<and>
   main_loop_bounded 3 scenario_graph node_C (init_state scenario_graph node_A) =
     Some (main_loop scenario_graph node_C (init_state scenario_graph node_A)) \<and>
   main_loop_iterations scenario_graph node_C (init_state scenario_graph node_A) = 3 \<and>
   main_loop_iterations scenario_graph node_C (init_state scenario_graph node_A) \<le> card (nodes scenario_graph) \<and>
   (\<exists>st'. loop_body scenario_graph node_C (init_state scenario_graph node_A) = Continue st' \<and>
      length (unvisited st') < length (unvisited (init_state scenario_graph node_A)))"
proof -
  have h: "js_object scenario_graph"
    by (simp add: js_object_def scenario_graph_def)
  have n: "main_loop_iterations scenario_graph node_C (init_state scenario_graph node_A) = 3"
    by (simp add: scenario_graph_def engine_defs)
  obtain st' where c: "loop_body scenario_graph node_C (init_state scenario_graph node_A) = Continue st'"
    by (simp add: scenario_graph_def engine_defs)
  have l: "length (map fst scenario_graph) = 3"
    by (simp add: scenario_graph_def)
  from main_loop_terminates[of scenario_graph node_C node_A, unfolded l] h c n show ?thesis
    by blast
qed

lemma main_loop_same:
  "main_loop g s (init_state g s) = Inr (init_state g s)"
proof (cases "unvisited (init_state g s)")
  case Nil
  then show ?thesis by (simp add: main_loop.simps)
next
  case (Cons x xs)
  let ?c = "foldl (closer (distances (init_state g s))) x xs"
  have "?c \<in> set (map fst g)"
    using closer_mem[of "distances (init_state g s)" x xs] Cons by (simp add: init_state_simps)
  then have "?c \<in> nodes g"
    by (simp add: nodes_def)
  then have "distances (init_state g s) ?c = Some Infinity \<or> ?c = s"
    by (simp add: init_state_simps)
  then have "loop_body g s (init_state g s) = Break"
    by (auto simp: loop_body_def Cons Let_def)
  then show ?thesis
    using Cons by (simp add: main_loop.simps)
qed

lemma dijkstra_same: "dijkstra g (Some s) (Some s) = Some (Inr (Path [JSON_parse s]))"
  by (simp add: dijkstra_def dijkstra_loop_def main_loop_same reconstruct.simps init_state_simps)

lemma handleNavigation_resolved:
  assumes "resolved D st s e"
  shows "handleNavigation D st =
          (case dijkstra (adjacencyList st) (Some s) (Some e) of
             None \<Rightarrow> None
           | Some (Inl err) \<Rightarrow> Some (Inl err)
           | Some (Inr NullPath) \<Rightarrow>
               Some (Inr (Some ''No valid path found between selected points.'', st\<lparr>route := None\<rparr>))
           | Some (Inr (Path path)) \<Rightarrow>
               (if length path < 2
                then Some (Inr (Some ''No valid path found between selected points.'', st\<lparr>route := None\<rparr>))
                else Some (Inr (None, st\<lparr>route := Some path\<rparr>))))"
  using assms
  by (auto simp: resolved_def handleNavigation_def Let_def split: option.splits prod.splits)

text \<open>
  C6. Called with \<open>start\<close> equal to \<open>end\<close>, the engine returns the single-node path
  \<open>[start]\<close> and not the null path, for every graph, whether or not it holds the node.
  When both selected points resolve to the same node, the orchestration layer treats
  this path of length 1 as no route: it raises the "no valid path" alert and resets the
  stored route to \<^verbatim>\<open>null\<close>.
\<close>

theorem identity_path:
  "dijkstra g (Some s) (Some s) = Some (Inr (Path [JSON_parse s])) \<and>
   (resolved distanceTo st s s \<longrightarrow>
      handleNavigation distanceTo st =
        Some (Inr (Some ''No valid path found between selected points.'', st\<lparr>route := None\<rparr>)))"
proof (intro conjI impI)
  have loop: "dijkstra_loop g s s = Inr (init_state g s)"
    unfolding dijkstra_loop_def by (rule main_loop_same)
  have "previous (init_state g s) s = None"
    by (simp add: init_state_simps)
  then have "reconstruct (previous (init_state g s)) (Some s) [] = Some [JSON_parse s]"
    by (simp add: reconstruct.simps)
  with loop show engine: "dijkstra g (Some s) (Some s) = Some (Inr (Path [JSON_parse s]))"
    by (simp add: dijkstra_def)
  assume "resolved distanceTo st s s"
  from handleNavigation_resolved[OF this]
  show "handleNavigation distanceTo st =
        Some (Inr (Some ''No valid path found between selected points.'', st\<lparr>route := None\<rparr>))"
    by (simp add: dijkstra_same)
qed

theorem identity_path_witness:
  "node_C \<in> nodes scenario_graph \<and>
   dijkstra scenario_graph (Some node_C) (Some node_C) = Some (Inr (Path [(1, 1)])) \<and>
   resolved taxicab (scenario_state ''Gate'' ''Gate'') node_C node_C \<and>
   handleNavigation taxicab (scenario_state ''Gate'' ''Gate'') =
     Some (Inr (Some ''No valid path found between selected points.'',
                (scenario_state ''Gate'' ''Gate'')\<lparr>route := None\<rparr>))"
proof -
  have n: "node_C \<in> nodes scenario_graph"
    by (simp add: nodes_def scenario_graph_def)
  have r: "resolved taxicab (scenario_state ''Gate'' ''Gate'') node_C node_C"
    by (simp add: resolved_def scenario_state_def falsy_def point_coords_def findNearestNode_def
        nearer_def taxicab_def scenario_graph_def)
  from n r identity_path[of scenario_graph node_C taxicab "scenario_state ''Gate'' ''Gate''"]
  show ?thesis by simp
qed

text \<open>
  C9. \<open>handleNavigation\<close> leaves the component state, and so the stored route, as it
  is when the selection is incomplete, when a selected name has no point geometry, and
  when a nearest-node lookup fails. When the engine returns the null path or a path of
  fewer than two coordinates, the stored route is reset to \<^verbatim>\<open>null\<close>. A path of at
  least two coordinates is stored as the new route, and nothing else ever is; no other
  component of the state changes.
\<close>

theorem handleNavigation_route:
  "(falsy (startPoint st) \<or> falsy (endPoint st) \<longrightarrow>
      handleNavigation distanceTo st = Some (Inr (Some ''Select both start and end points!'', st))) \<and>
   (\<not> falsy (startPoint st) \<and> \<not> falsy (endPoint st) \<and> geoData_points st = Some features \<and>
    (point_coords features (startPoint st) = None \<or> point_coords features (endPoint st) = None) \<longrightarrow>
      handleNavigation distanceTo st = Some (Inr (Some ''Invalid points selected!'', st))) \<and>
   (\<not> falsy (startPoint st) \<and> \<not> falsy (endPoint st) \<and> geoData_points st = Some features \<and>
    point_coords features (startPoint st) = Some startCoords \<and>
    point_coords features (endPoint st) = Some endCoords \<and>
    (findNearestNode distanceTo (adjacencyList st) (snd startCoords, fst startCoords) = None \<or>
     findNearestNode distanceTo (adjacencyList st) (snd endCoords, fst endCoords) = None) \<longrightarrow>
      handleNavigation distanceTo st =
        Some (Inr (Some ''Selected points are not connected to the road network!'', st))) \<and>
   (resolved distanceTo st s e \<and> dijkstra (adjacencyList st) (Some s) (Some e) = Some (Inr r) \<and>
    (case r of NullPath \<Rightarrow> True | Path path \<Rightarrow> length path < 2) \<longrightarrow>
      handleNavigation distanceTo st =
        Some (Inr (Some ''No valid path found between selected points.'', st\<lparr>route := None\<rparr>))) \<and>
   (resolved distanceTo st s e \<and> dijkstra (adjacencyList st) (Some s) (Some e) = Some (Inr (Path path)) \<and>
    2 \<le> length path \<longrightarrow>
      handleNavigation distanceTo st = Some (Inr (None, st\<lparr>route := Some path\<rparr>))) \<and>
   (handleNavigation distanceTo st = Some (Inr (a, st')) \<longrightarrow>
      st' = st\<lparr>route := route st'\<rparr> \<and>
      (route st' = route st \<or> route st' = None \<or> (\<exists>p. route st' = Some p \<and> 2 \<le> length p)))"
proof (intro conjI impI)
  assume "handleNavigation distanceTo st = Some (Inr (a, st'))"
  then have "st' = st \<or> st' = st\<lparr>route := None\<rparr> \<or> (\<exists>p. st' = st\<lparr>route := Some p\<rparr> \<and> 2 \<le> length p)"
    by (auto simp: handleNavigation_def Let_def
        split: if_splits option.splits prod.splits sum.splits path_result.splits)
  then show "st' = st\<lparr>route := route st'\<rparr>"
    and "route st' = route st \<or> route st' = None \<or> (\<exists>p. route st' = Some p \<and> 2 \<le> length p)"
    by auto
qed (auto simp: handleNavigation_resolved split: path_result.splits,
    auto simp: handleNavigation_def Let_def split: option.splits)

lemma scenario_resolved:
  "resolved taxicab (scenario_state ''Library'' ''Gate'') node_A node_C"
  "resolved taxicab (scenario_state ''Gate'' ''Gate'') node_C node_C"
  by (simp_all add: resolved_def scenario_state_def falsy_def point_coords_def findNearestNode_def
        nearer_def taxicab_def scenario_graph_def)

lemma scenario_dijkstra:
  "dijkstra scenario_graph (Some node_A) (Some node_C) = Some (Inr (Path [(0, 0), (0, 1), (1, 1)]))"
  by (simp add: scenario_graph_def engine_defs)

theorem handleNavigation_route_witness:
  "falsy (startPoint (scenario_state [] ''Gate'')) \<and>
   handleNavigation taxicab (scenario_state [] ''Gate'') =
     Some (Inr (Some ''Select both start and end points!'', scenario_state [] ''Gate'')) \<and>
   resolved taxicab (scenario_state ''Gate'' ''Gate'') node_C node_C \<and>
   dijkstra (adjacencyList (scenario_state ''Gate'' ''Gate'')) (Some node_C) (Some node_C) =
     Some (Inr (Path [(1, 1)])) \<and>
   handleNavigation taxicab (scenario_state ''Gate'' ''Gate'') =
     Some (Inr (Some ''No valid path found between selected points.'',
                (scenario_state ''Gate'' ''Gate'')\<lparr>route := None\<rparr>)) \<and>
   resolved taxicab (scenario_state ''Library'' ''Gate'') node_A node_C \<and>
   dijkstra (adjacencyList (scenario_state ''Library'' ''Gate'')) (Some node_A) (Some node_C) =
     Some (Inr (Path [(0, 0), (0, 1), (1, 1)])) \<and>
   handleNavigation taxicab (scenario_state ''Library'' ''Gate'') =
     Some (Inr (None, (scenario_state ''Library'' ''Gate'')\<lparr>route := Some [(0, 0), (0, 1), (1, 1)]\<rparr>))"
proof -
  have f: "falsy (startPoint (scenario_state [] ''Gate''))"
    by (simp add: falsy_def scenario_state_def)
  have d1: "dijkstra (adjacencyList (scenario_state ''Gate'' ''Gate'')) (Some node_C) (Some node_C) =
     Some (Inr (Path [(1, 1)]))"
    by (simp add: dijkstra_same)
  have d2: "dijkstra (adjacencyList (scenario_state ''Library'' ''Gate'')) (Some node_A) (Some node_C) =
     Some (Inr (Path [(0, 0), (0, 1), (1, 1)]))"
    by (simp add: scenario_state_def scenario_dijkstra)
  from handleNavigation_route[of "scenario_state [] ''Gate''" taxicab] f
  have 1: "handleNavigation taxicab (scenario_state [] ''Gate'') =
     Some (Inr (Some ''Select both start and end points!'', scenario_state [] ''Gate''))"
    by blast
  from handleNavigation_route[of "scenario_state ''Gate'' ''Gate''" taxicab _ _ _ node_C node_C "Path [(1, 1)]"]
    scenario_resolved(2) d1
  have 2: "handleNavigation taxicab (scenario_state ''Gate'' ''Gate'') =
     Some (Inr (Some ''No valid path found between selected points.'',
                (scenario_state ''Gate'' ''Gate'')\<lparr>route := None\<rparr>))"
    by simp
  from handleNavigation_route[of "scenario_state ''Library'' ''Gate''" taxicab _ _ _ node_A node_C _
      "[(0, 0), (0, 1), (1, 1)]"] scenario_resolved(1) d2
  have 3: "handleNavigation taxicab (scenario_state ''Library'' ''Gate'') =
     Some (Inr (None, (scenario_state ''Library'' ''Gate'')\<lparr>route := Some [(0, 0), (0, 1), (1, 1)]\<rparr>))"
    by simp
  from f 1 scenario_resolved(2) d1 2 scenario_resolved(1) d2 3 show ?thesis
    by (intro conjI)
qed

section \<open>Reachability and the engine\<close>

lemma num_lt_not_NaN: "num_lt a b \<Longrightarrow> a \<noteq> NaN \<and> b \<noteq> NaN \<and> num_lt a Infinity"
  by (cases a; cases b) simp_all

lemma num_add_not_NaN: "num_add a b \<noteq> NaN \<Longrightarrow> a \<noteq> NaN \<and> b \<noteq> NaN"
  by (cases a; cases b) simp_all

lemma num_add_reached: "num_lt (num_add a (Fin w)) Infinity \<Longrightarrow> num_lt a Infinity"
  by (cases a) simp_all

lemma to_num_NaN: "to_num v \<noteq> NaN \<Longrightarrow> v \<noteq> None"
  by (cases v) (simp_all add: to_num_def)

lemma relax_cases:
  obtains (keep) "relax adj u st v = st"
      "\<not> num_lt (num_add (to_num (distances st u)) (to_num (map_option Fin (map_of adj v))))
                (to_num (distances st v))"
    | (update) w where "map_of adj v = Some w"
      "num_lt (num_add (to_num (distances st u)) (Fin w)) (to_num (distances st v))"
      "relax adj u st v = st\<lparr>distances := (distances st)(v \<mapsto> num_add (to_num (distances st u)) (Fin w)),
                              previous := (previous st)(v \<mapsto> u)\<rparr>"
proof (cases "num_lt (num_add (to_num (distances st u)) (to_num (map_option Fin (map_of adj v))))
                (to_num (distances st v))")
  case True
  from num_lt_not_NaN[OF True]
  have "num_add (to_num (distances st u)) (to_num (map_option Fin (map_of adj v))) \<noteq> NaN"
    by simp
  from num_add_not_NaN[OF this] have "to_num (map_option Fin (map_of adj v)) \<noteq> NaN"
    by simp
  then obtain w where w: "map_of adj v = Some w"
    by (cases "map_of adj v") (simp_all add: to_num_def)
  then have b: "to_num (map_option Fin (map_of adj v)) = Fin w"
    by (simp add: to_num_def)
  have "relax adj u st v = st\<lparr>distances := (distances st)(v \<mapsto> num_add (to_num (distances st u)) (Fin w)),
                              previous := (previous st)(v \<mapsto> u)\<rparr>"
    using True unfolding relax_def Let_def b by simp
  with w True[unfolded b] show ?thesis by (rule update)
next
  case False
  then have "relax adj u st v = st"
    by (simp add: relax_def Let_def)
  then show ?thesis using False by (rule keep)
qed

lemma foldl_relax_induct:
  assumes "P st" and "\<And>st v. P st \<Longrightarrow> v \<in> set ns \<Longrightarrow> P (relax adj u st v)"
  shows "P (foldl (relax adj u) st ns)"
  using assms by (induction ns arbitrary: st) simp_all

lemma main_loop_rule:
  assumes "I st"
    and step: "\<And>st st'. I st \<Longrightarrow> unvisited st \<noteq> [] \<Longrightarrow> loop_body g e st = Continue st' \<Longrightarrow> I st'"
    and nothrow: "\<And>st err. I st \<Longrightarrow> unvisited st \<noteq> [] \<Longrightarrow> loop_body g e st \<noteq> Throw err"
  shows "\<exists>st'. main_loop g e st = Inr st' \<and> I st' \<and> (unvisited st' = [] \<or> loop_body g e st' = Break)"
  using assms(1)
proof (induction "length (unvisited st)" arbitrary: st rule: less_induct)
  case less
  show ?case
  proof (cases "unvisited st = []")
    case True
    with less.prems show ?thesis
      by (simp add: main_loop.simps)
  next
    case False
    show ?thesis
    proof (cases "loop_body g e st")
      case Break
      with False less.prems show ?thesis
        by (simp add: main_loop.simps)
    next
      case (Throw err)
      with nothrow[OF less.prems False, of err] show ?thesis
        by simp
    next
      case (Continue st')
      from step[OF less.prems False Continue] have "I st'" .
      from less.hyps[OF loop_body_decreases[OF Continue] this] show ?thesis
        using False Continue by (simp add: main_loop.simps[of g e st])
    qed
  qed
qed

lemma walk_snoc: "p \<noteq> [] \<Longrightarrow> walk g (p @ [b]) \<longleftrightarrow> walk g p \<and> weight g (last p) b \<noteq> None"
  by (induction g p rule: walk.induct) auto

lemma path_weight_snoc:
  "p \<noteq> [] \<Longrightarrow>
   path_weight g (p @ [b]) = path_weight g p + (case weight g (last p) b of None \<Rightarrow> 0 | Some w \<Rightarrow> w)"
  by (induction g p rule: path_weight.induct) auto

lemma route_from_to_refl: "route_from_to g s s [s]"
  by (simp add: route_from_to_def)

lemma route_from_to_snoc:
  "route_from_to g s u p \<Longrightarrow> weight g u v = Some w \<Longrightarrow> route_from_to g s v (p @ [v])"
  by (simp add: route_from_to_def walk_snoc)

lemma weight_map_of: "map_of g u = Some adj \<Longrightarrow> weight g u v = map_of adj v"
  by (simp add: weight_def)

lemma weight_nodes: "weight g u v = Some w \<Longrightarrow> u \<in> nodes g"
  by (auto simp: weight_def nodes_map_of split: option.splits)

lemma reach_inv_init: "reach_inv g s (init_state g s)"
  by (auto simp: reach_inv_def init_state_simps nodes_def to_num_def intro: route_from_to_refl split: if_splits)

lemma reach_inv_unvisited:
  "reach_inv g s st \<Longrightarrow> set U \<subseteq> set (unvisited st) \<Longrightarrow> reach_inv g s (st\<lparr>unvisited := U\<rparr>)"
  by (auto simp: reach_inv_def)

lemma reach_inv_relax:
  assumes inv: "reach_inv g s st" and adj: "map_of g u = Some adj"
  shows "reach_inv g s (relax adj u st v)"
proof (cases rule: relax_cases[of adj u st v])
  case keep
  with inv show ?thesis by simp
next
  case (update w)
  define alt where "alt = num_add (to_num (distances st u)) (Fin w)"
  from num_lt_not_NaN[OF update(2)] have alt: "alt \<noteq> NaN" "num_lt alt Infinity"
    and old: "to_num (distances st v) \<noteq> NaN"
    by (simp_all add: alt_def)
  from alt(2) have "num_lt (to_num (distances st u)) Infinity"
    unfolding alt_def by (rule num_add_reached)
  with inv obtain p where p: "route_from_to g s u p"
    unfolding reach_inv_def by blast
  from update(1) adj have "weight g u v = Some w"
    by (simp add: weight_map_of)
  from route_from_to_snoc[OF p this] have r: "\<exists>q. route_from_to g s v q"
    by blast
  from old have d: "distances st v \<noteq> None"
    by (rule to_num_NaN)
  have tn: "to_num (Some alt) = alt"
    by (simp add: to_num_def)
  show ?thesis
    unfolding update(3) alt_def[symmetric] using inv r d alt
    by (auto simp: reach_inv_def tn)
qed

lemma reach_inv_step:
  assumes inv: "reach_inv g s st" and c: "loop_body g e st = Continue st'"
  shows "reach_inv g s st'"
proof -
  from c obtain x xs adj where adj: "map_of g (foldl (closer (distances st)) x xs) = Some adj"
    and st': "st' = foldl (relax adj (foldl (closer (distances st)) x xs))
                 (st\<lparr>unvisited := removeAll (foldl (closer (distances st)) x xs) (unvisited st)\<rparr>)
                 (map fst adj)"
    by (rule loop_body_Continue)
  have "reach_inv g s (st\<lparr>unvisited := removeAll (foldl (closer (distances st)) x xs) (unvisited st)\<rparr>)"
    by (rule reach_inv_unvisited[OF inv]) auto
  then show ?thesis
    unfolding st' by (rule foldl_relax_induct) (rule reach_inv_relax[OF _ adj])
qed

lemma reach_inv_nothrow:
  assumes inv: "reach_inv g s st" and ne: "unvisited st \<noteq> []"
  shows "loop_body g e st \<noteq> Throw err"
proof -
  from ne obtain x xs where u: "unvisited st = x # xs"
    by (cases "unvisited st") auto
  have "foldl (closer (distances st)) x xs \<in> set (unvisited st)"
    unfolding u by (rule closer_mem)
  with inv have "foldl (closer (distances st)) x xs \<in> nodes g"
    by (auto simp: reach_inv_def)
  then obtain adj where "map_of g (foldl (closer (distances st)) x xs) = Some adj"
    by (auto simp: nodes_map_of)
  then show ?thesis
    by (simp add: loop_body_def u Let_def)
qed

lemma dijkstra_loop_reach:
  "\<exists>st. dijkstra_loop g s e = Inr st \<and> reach_inv g s st"
proof -
  have "\<exists>st'. main_loop g e (init_state g s) = Inr st' \<and> reach_inv g s st' \<and>
          (unvisited st' = [] \<or> loop_body g e st' = Break)"
  proof (rule main_loop_rule[where I = "reach_inv g s"])
    show "reach_inv g s (init_state g s)"
      by (rule reach_inv_init)
    show "reach_inv g s st'" if "reach_inv g s st" "loop_body g e st = Continue st'" for st st'
      using that by (rule reach_inv_step)
    show "loop_body g e st \<noteq> Throw err" if "reach_inv g s st" "unvisited st \<noteq> []" for st err
      using that by (rule reach_inv_nothrow)
  qed
  then show ?thesis
    unfolding dijkstra_loop_def by blast
qed

lemma route_closed:
  assumes "route_from_to g s v p" and "s \<in> S"
    and "\<And>a b. a \<in> S \<Longrightarrow> weight g a b \<noteq> None \<Longrightarrow> b \<in> S"
  shows "v \<in> S"
  using assms(1)
proof (induction p arbitrary: v rule: rev_induct)
  case Nil
  then show ?case by (simp add: route_from_to_def)
next
  case (snoc b p)
  show ?case
  proof (cases "p = []")
    case True
    with snoc.prems assms(2) show ?thesis
      by (auto simp: route_from_to_def)
  next
    case False
    with snoc.prems have "route_from_to g s (last p) p" and "weight g (last p) b \<noteq> None" and "v = b"
      by (auto simp: route_from_to_def walk_snoc)
    with snoc.IH assms(3) show ?thesis
      by blast
  qed
qed

text \<open>
  C1, amended: when \<open>end\<close> is not a node of the graph, or cannot be reached from
  \<open>start\<close>, the engine returns the one-element path \<open>[end]\<close>, which the orchestration
  layer treats as no route (see C9); it returns the null path exactly when \<open>start\<close> or
  \<open>end\<close> is \<^verbatim>\<open>null\<close>.
\<close>

theorem dijkstra_unreachable:
  assumes "e \<notin> nodes g \<or> \<not> (\<exists>p. route_from_to g s e p)"
  shows "dijkstra g (Some s) (Some e) = Some (Inr (Path [JSON_parse e])) \<and>
         (dijkstra g start end = Some (Inr NullPath) \<longleftrightarrow> start = None \<or> end = None)"
proof
  show "dijkstra g (Some s) (Some e) = Some (Inr (Path [JSON_parse e]))"
  proof (cases "e = s")
    case True
    then show ?thesis by (simp add: dijkstra_same)
  next
    case False
    obtain st where st: "dijkstra_loop g s e = Inr st" and inv: "reach_inv g s st"
      using dijkstra_loop_reach by blast
    have "\<not> num_lt (to_num (distances st e)) Infinity"
    proof
      assume reached: "num_lt (to_num (distances st e)) Infinity"
      with inv have "\<exists>p. route_from_to g s e p"
        unfolding reach_inv_def by blast
      moreover from num_lt_not_NaN[OF reached] have "distances st e \<noteq> None"
        by (intro to_num_NaN) simp
      with inv False have "e \<in> nodes g"
        unfolding reach_inv_def by blast
      ultimately show False using assms by blast
    qed
    with inv have "previous st e = None"
      unfolding reach_inv_def by (cases "previous st e") auto
    then show ?thesis
      by (simp add: dijkstra_def st reconstruct.simps)
  qed
  show "dijkstra g start end = Some (Inr NullPath) \<longleftrightarrow> start = None \<or> end = None"
    by (auto simp: dijkstra_def split: option.splits sum.splits)
qed

lemma two_components_eq:
  "two_components =
     [(JSON_stringify (0, 0), [(JSON_stringify (1, 0), 1)]),
      (JSON_stringify (1, 0), [(JSON_stringify (0, 0), 1)]),
      (JSON_stringify (5, 5), [(JSON_stringify (6, 5), 1)]),
      (JSON_stringify (6, 5), [(JSON_stringify (5, 5), 1)])]"
  by (simp add: two_components_def builder_defs taxicab_def)

text \<open>
  C1, as stated: for an \<open>end\<close> that is absent from the graph or unreachable from
  \<open>start\<close> the engine returns the null path and no path sequence. It fails: the
  reconstruction loop starts from \<open>end\<close> and \<^verbatim>\<open>unshift\<close>s it before it looks at
  \<open>previous\<close>, so the result is the sequence \<open>[end]\<close>, both between two disjoint road
  components and for a key that is not in the graph.
\<close>

theorem dijkstra_unreachable_counterexample:
  "JSON_stringify (5, 5) \<in> nodes two_components \<and>
   dijkstra two_components (Some (JSON_stringify (0, 0))) (Some (JSON_stringify (5, 5)))
     = Some (Inr (Path [(5, 5)])) \<and>
   JSON_stringify (7, 7) \<notin> nodes scenario_graph \<and>
   dijkstra scenario_graph (Some node_A) (Some (JSON_stringify (7, 7))) = Some (Inr (Path [(7, 7)]))"
  by (simp add: two_components_eq scenario_graph_def nodes_def engine_defs)

theorem dijkstra_unreachable_witness:
  "JSON_stringify (7, 7) \<notin> nodes scenario_graph \<and>
   dijkstra scenario_graph (Some node_A) (Some (JSON_stringify (7, 7))) = Some (Inr (Path [(7, 7)])) \<and>
   JSON_stringify (5, 5) \<in> nodes two_components \<and>
   \<not> (\<exists>p. route_from_to two_components (JSON_stringify (0, 0)) (JSON_stringify (5, 5)) p) \<and>
   dijkstra two_components (Some (JSON_stringify (0, 0))) (Some (JSON_stringify (5, 5)))
     = Some (Inr (Path [(5, 5)]))"
proof -
  have a: "JSON_stringify (7, 7) \<notin> nodes scenario_graph"
    by (simp add: scenario_graph_def nodes_def)
  have n: "JSON_stringify (5, 5) \<in> nodes two_components"
    by (simp add: two_components_eq nodes_def)
  have u: "\<not> (\<exists>p. route_from_to two_components (JSON_stringify (0, 0)) (JSON_stringify (5, 5)) p)"
  proof
    assume "\<exists>p. route_from_to two_components (JSON_stringify (0, 0)) (JSON_stringify (5, 5)) p"
    then obtain p where "route_from_to two_components (JSON_stringify (0, 0)) (JSON_stringify (5, 5)) p" ..
    then have "JSON_stringify (5, 5) \<in> {JSON_stringify (0, 0), JSON_stringify (1, 0)}"
      by (rule route_closed) (auto simp: two_components_eq weight_def split: if_splits)
    then show False by simp
  qed
  from dijkstra_unreachable[of "JSON_stringify (7, 7)" scenario_graph node_A] a
    dijkstra_unreachable[of "JSON_stringify (5, 5)" two_components "JSON_stringify (0, 0)"] n u
  show ?thesis by simp
qed

section \<open>The engine on non-negative weights\<close>

lemma chain_last: "chain prev v p \<Longrightarrow> p \<noteq> [] \<and> last p = v"
  by (induction rule: chain.induct) simp_all

lemma chain_upd: "chain prev x p \<Longrightarrow> v \<notin> set p \<Longrightarrow> chain (prev(v \<mapsto> u)) x p"
proof (induction rule: chain.induct)
  case (chain_start x)
  then show ?case by (intro chain.chain_start) auto
next
  case (chain_step x w p)
  then show ?case by (intro chain.chain_step[where u = w]) auto
qed

lemma chain_reconstruct:
  "chain prev v p \<Longrightarrow> reconstruct prev (Some v) acc = Some (map JSON_parse p @ acc)"
proof (induction arbitrary: acc rule: chain.induct)
  case (chain_start v)
  then show ?case by (simp add: reconstruct.simps)
next
  case (chain_step v u p)
  then show ?case by (simp add: reconstruct.simps[of prev "Some v"])
qed

lemma set_butlast_last: "p \<noteq> [] \<Longrightarrow> set p = insert (last p) (set (butlast p))"
  by (induction p) auto

lemma num_ge_trans:
  "\<not> num_lt a b \<Longrightarrow> \<not> num_lt b c \<Longrightarrow> a \<noteq> NaN \<Longrightarrow> b \<noteq> NaN \<Longrightarrow> c \<noteq> NaN \<Longrightarrow> \<not> num_lt a c"
  by (cases a; cases b; cases c) simp_all

lemma num_lt_irrefl: "\<not> num_lt a a"
  by (cases a) simp_all

lemma num_lt_asym: "num_lt a b \<Longrightarrow> \<not> num_lt b a"
  by (cases a; cases b) simp_all

lemma num_lt_trans: "num_lt a b \<Longrightarrow> num_lt b c \<Longrightarrow> num_lt a c"
  by (cases a; cases b; cases c) simp_all

lemma closer_min:
  assumes "\<forall>b \<in> set (x # xs). to_num (d b) \<noteq> NaN"
  shows "\<forall>b \<in> set (x # xs). \<not> num_lt (to_num (d b)) (to_num (d (foldl (closer d) x xs)))"
  using assms
proof (induction xs arbitrary: x)
  case Nil
  then show ?case by (simp add: num_lt_irrefl)
next
  case (Cons y ys)
  let ?x' = "closer d x y"
  let ?c = "foldl (closer d) ?x' ys"
  have x': "?x' = x \<or> ?x' = y"
    by (simp add: closer_def)
  with Cons.prems have nn: "\<forall>b \<in> set (?x' # ys). to_num (d b) \<noteq> NaN"
    by auto
  from Cons.IH[OF nn] have ih: "\<forall>b \<in> set (?x' # ys). \<not> num_lt (to_num (d b)) (to_num (d ?c))" .
  have c: "to_num (d ?c) \<noteq> NaN"
    using nn closer_mem[of d ?x' ys] by blast
  have xx: "\<not> num_lt (to_num (d x)) (to_num (d ?x'))" and yx: "\<not> num_lt (to_num (d y)) (to_num (d ?x'))"
    by (simp_all add: closer_def num_lt_irrefl num_lt_asym)
  from ih have 1: "\<not> num_lt (to_num (d ?x')) (to_num (d ?c))"
    and ys: "\<forall>b \<in> set ys. \<not> num_lt (to_num (d b)) (to_num (d ?c))"
    by simp_all
  from nn have 2: "to_num (d ?x') \<noteq> NaN"
    by simp
  from Cons.prems have 3: "to_num (d x) \<noteq> NaN" "to_num (d y) \<noteq> NaN"
    by simp_all
  have "\<not> num_lt (to_num (d x)) (to_num (d ?c))"
    by (rule num_ge_trans[OF xx 1 3(1) 2 c])
  moreover have "\<not> num_lt (to_num (d y)) (to_num (d ?c))"
    by (rule num_ge_trans[OF yx 1 3(2) 2 c])
  ultimately show ?case
    using ys by simp
qed

lemma nonneg_weight: "nonneg_weights g \<Longrightarrow> weight g a b = Some w \<Longrightarrow> 0 \<le> w"
  by (auto simp: nonneg_weights_def weight_def split: option.splits dest!: map_of_SomeD)

text \<open>
  Adding a non-negative weight to a non-negative double, and rounding, gives a
  non-negative double or \<^verbatim>\<open>Infinity\<close>, never less than the double, and the result grows
  with the double.
\<close>

lemma nonneg_num_NaN: "nonneg_num a \<Longrightarrow> a \<noteq> NaN"
  by (auto simp: nonneg_num_def)

lemma nonneg_num_add:
  assumes a: "nonneg_num a" and w: "0 \<le> w"
  shows "nonneg_num (num_add a (Fin w))" and "\<not> num_lt (num_add a (Fin w)) a"
proof -
  show "nonneg_num (num_add a (Fin w))"
  proof (cases a)
    case (Fin x)
    with a have x: "0 \<le> x" by (simp add: nonneg_num_def)
    with w have xw: "0 \<le> x + w" by simp
    then show ?thesis
    proof (cases rule: round_double_nonneg)
      case 1
      then show ?thesis by (simp add: Fin nonneg_num_def)
    next
      case 2
      from double_round_double[OF xw 2(1)] show ?thesis
        by (simp add: Fin nonneg_num_def 2(1))
    qed
  qed (use a in \<open>simp_all add: nonneg_num_def\<close>)
  show "\<not> num_lt (num_add a (Fin w)) a"
  proof (cases a)
    case (Fin x)
    with a have "0 \<le> x" "double x" by (simp_all add: nonneg_num_def)
    from round_double_add_ge[OF this(2,1) w] show ?thesis
      by (simp add: Fin)
  qed simp_all
qed

lemma num_add_mono:
  assumes a: "nonneg_num a" and b: "nonneg_num b" and le: "\<not> num_lt b a" and w: "0 \<le> w"
  shows "\<not> num_lt (num_add b (Fin w)) (num_add a (Fin w))"
proof (cases a)
  case (Fin x)
  note ax = this
  with a have x: "0 \<le> x" by (simp add: nonneg_num_def)
  show ?thesis
  proof (cases b)
    case (Fin y)
    with le ax have "x \<le> y" by simp
    with x w have "0 \<le> x + w" "x + w \<le> y + w" by simp_all
    from round_double_mono[OF this] show ?thesis
      by (simp add: ax Fin)
  qed (use b in \<open>simp_all add: nonneg_num_def\<close>)
next
  case Infinity
  with b le show ?thesis
    by (cases b) (simp_all add: nonneg_num_def)
qed (use a in \<open>simp_all add: nonneg_num_def\<close>)

lemma double_weight_from_snoc:
  "p \<noteq> [] \<Longrightarrow>
   double_weight_from g acc (p @ [b]) =
     num_add (double_weight_from g acc p) (to_num (map_option Fin (weight g (last p) b)))"
  by (induction g acc p rule: double_weight_from.induct) auto

lemma double_weight_snoc:
  "p \<noteq> [] \<Longrightarrow> weight g (last p) b = Some w \<Longrightarrow>
   double_weight g (p @ [b]) = num_add (double_weight g p) (Fin w)"
  by (simp add: double_weight_def double_weight_from_snoc to_num_def)

lemma double_weight_single: "double_weight g [a] = Fin 0"
  by (simp add: double_weight_def)

lemma nonneg_double_weight:
  assumes nn: "nonneg_weights g"
  shows "walk g q \<Longrightarrow> nonneg_num (double_weight g q)"
proof (induction q rule: rev_induct)
  case Nil
  then show ?case by (simp add: double_weight_def nonneg_num_def)
next
  case (snoc b q)
  show ?case
  proof (cases "q = []")
    case True
    then show ?thesis by (simp add: double_weight_def nonneg_num_def)
  next
    case False
    with snoc.prems have q: "walk g q" and "weight g (last q) b \<noteq> None"
      by (simp_all add: walk_snoc)
    then obtain w where w: "weight g (last q) b = Some w" by blast
    with nn have "0 \<le> w" by (rule nonneg_weight)
    from nonneg_num_add(1)[OF snoc.IH[OF q] this] show ?thesis
      by (simp add: double_weight_snoc[OF False w])
  qed
qed

lemma fin_cases:
  assumes "reach_inv g s st" and "tree_inv g s st" and "distances st v \<noteq> None"
  obtains "distances st v = Some Infinity" | y where "distances st v = Some (Fin y)"
proof -
  from assms(3) obtain n where n: "distances st v = Some n" by auto
  with assms(1) have "n \<noteq> NaN" by (auto simp: reach_inv_def)
  moreover from n assms(2) have "n \<noteq> MinusInfinity" by (auto simp: tree_inv_def)
  ultimately show ?thesis using n that by (cases n) auto
qed

lemma relaxed_keep:
  assumes adj: "map_of g c = Some adj"
    and keep: "\<not> num_lt (num_add (to_num (distances st c)) (to_num (map_option Fin (map_of adj v))))
                (to_num (distances st v))"
  shows "relaxed g st c v"
  unfolding relaxed_def
proof (intro allI impI, elim conjE)
  fix w x
  assume w: "weight g c v = Some w" and x: "distances st c = Some (Fin x)"
  from w adj have m: "map_of adj v = Some w"
    by (simp add: weight_map_of)
  have "to_num (distances st c) = Fin x" "to_num (map_option Fin (map_of adj v)) = Fin w"
    by (simp_all add: x m to_num_def)
  with keep show "\<not> num_lt (num_add (Fin x) (Fin w)) (to_num (distances st v))"
    by simp
qed

lemma scan_inv_keep:
  assumes inv: "scan_inv g s c du P st" and rel: "relaxed g st c v"
  shows "scan_inv g s c du (insert v P) st"
  using assms unfolding scan_inv_def by auto

lemma visited_upd [simp]:
  "visited g (st\<lparr>distances := d, previous := p\<rparr>) = visited g st"
  by (simp add: visited_def)

lemma scan_inv_update:
  assumes inv: "scan_inv g s c du P st" and adj: "map_of g c = Some adj" and nn: "nonneg_weights g"
    and w: "map_of adj v = Some w"
    and old: "num_lt (num_add (Fin du) (Fin w)) (to_num (distances st v))"
    and st': "st' = st\<lparr>distances := (distances st)(v \<mapsto> num_add (Fin du) (Fin w)),
                       previous := (previous st)(v \<mapsto> c)\<rparr>"
    and r': "reach_inv g s st'"
  shows "scan_inv g s c du (insert v P) st'"
proof -
  from inv have r: "reach_inv g s st" and t: "tree_inv g s st" and cv: "c \<in> visited g st"
    and dc: "distances st c = Some (Fin du)"
    and vis: "\<And>a. a \<in> visited g st \<Longrightarrow> \<exists>x. distances st a = Some (Fin x) \<and> x \<le> du"
    and unv: "\<And>b y. b \<in> set (unvisited st) \<Longrightarrow> distances st b = Some (Fin y) \<Longrightarrow> du \<le> y"
    and rel: "\<And>a b. a \<in> visited g st \<Longrightarrow> a \<noteq> c \<or> b \<in> P \<Longrightarrow> relaxed g st a b"
    unfolding scan_inv_def by blast+
  from t have ds: "distances st s = Some (Fin 0)" and ps: "previous st s = None"
    and nomi: "\<And>v. distances st v \<noteq> Some MinusInfinity"
    and tr: "\<And>v x. distances st v = Some (Fin x) \<Longrightarrow> 0 \<le> x \<and> double x \<and>
         (\<exists>p. chain (previous st) v p \<and> hd p = s \<and> walk g p \<and> double_weight g p = Fin x \<and>
              set (butlast p) \<subseteq> visited g st)"
    unfolding tree_inv_def by blast+
  have wcv: "weight g c v = Some w"
    using w adj by (simp add: weight_map_of)
  have w0: "0 \<le> w"
    using nn wcv by (rule nonneg_weight)
  have du0: "0 \<le> du" and ddu: "double du"
    using tr[OF dc] by simp_all
  define alt where "alt = num_add (Fin du) (Fin w)"
  note old = old[folded alt_def] and st' = st'[folded alt_def]
  have gd: "nonneg_num (Fin du)"
    by (simp add: nonneg_num_def du0 ddu)
  have ga: "nonneg_num alt" and ge: "\<not> num_lt alt (Fin du)"
    unfolding alt_def by (rule nonneg_num_add[OF gd w0])+
  from old have "alt \<noteq> Infinity"
    by (cases alt) simp_all
  with ga ge obtain r where alt: "alt = Fin r" and r0: "0 \<le> r" and dr: "double r" and dur: "du \<le> r"
    by (cases alt) (auto simp: nonneg_num_def)
  note old = old[unfolded alt] and st' = st'[unfolded alt]
  have vnv: "v \<notin> visited g st"
  proof
    assume "v \<in> visited g st"
    from vis[OF this] obtain x where "distances st v = Some (Fin x)" "x \<le> du" by blast
    with old dur show False by (simp add: to_num_def)
  qed
  have vs: "v \<noteq> s"
    using old ds r0 by (auto simp: to_num_def)
  have vc: "v \<noteq> c"
    using vnv cv by blast
  have vis': "visited g st' = visited g st"
    by (simp add: st')
  have unv': "unvisited st' = unvisited st"
    by (simp add: st')
  have dist': "distances st' a = (if a = v then Some (Fin r) else distances st a)" for a
    by (simp add: st')
  have prev': "previous st' = (previous st)(v \<mapsto> c)"
    by (simp add: st')
  obtain pc where pc: "chain (previous st) c pc" "hd pc = s" "walk g pc" "double_weight g pc = Fin du"
    "set (butlast pc) \<subseteq> visited g st"
    using tr[OF dc] by blast
  from chain_last[OF pc(1)] have pcl: "pc \<noteq> []" "last pc = c" by simp_all
  have pcv: "set pc \<subseteq> visited g st"
    using set_butlast_last[OF pcl(1)] pcl(2) pc(5) cv by auto
  have t': "tree_inv g s st'"
    unfolding tree_inv_def
  proof (intro conjI allI impI)
    show "distances st' s = Some (Fin 0)"
      using vs ds by (simp add: dist')
    show "previous st' s = None"
      using vs ps by (simp add: prev')
    show "distances st' u \<noteq> Some MinusInfinity" for u
      using nomi[of u] by (simp add: dist')
  next
    fix u x
    assume ux: "distances st' u = Some (Fin x)"
    show "0 \<le> x"
      using ux tr[of u x] r0 by (auto simp: dist' split: if_splits)
    show "double x"
      using ux tr[of u x] dr by (auto simp: dist' split: if_splits)
    show "\<exists>p. chain (previous st') u p \<and> hd p = s \<and> walk g p \<and> double_weight g p = Fin x \<and>
              set (butlast p) \<subseteq> visited g st'"
    proof (cases "u = v")
      case True
      with ux have x: "x = r" by (simp add: dist')
      have "v \<notin> set pc" using pcv vnv by blast
      from chain_upd[OF pc(1) this] have "chain (previous st') c pc"
        by (simp add: prev')
      then have "chain (previous st') v (pc @ [v])"
        by (intro chain_step[where u = c]) (simp_all add: prev')
      moreover have "hd (pc @ [v]) = s"
        using pcl(1) pc(2) by simp
      moreover have "walk g (pc @ [v])"
        using pcl pc(3) wcv by (simp add: walk_snoc)
      moreover have "double_weight g (pc @ [v]) = Fin x"
      proof -
        from wcv pcl(2) have "weight g (last pc) v = Some w" by simp
        from double_weight_snoc[OF pcl(1) this] alt[unfolded alt_def] show ?thesis
          by (simp add: pc(4) x)
      qed
      moreover have "set (butlast (pc @ [v])) \<subseteq> visited g st'"
        using pcv by (simp add: vis')
      ultimately show ?thesis
        using True by blast
    next
      case False
      with ux have "distances st u = Some (Fin x)" by (simp add: dist')
      from tr[OF this] obtain p where p: "chain (previous st) u p" "hd p = s" "walk g p"
        "double_weight g p = Fin x" "set (butlast p) \<subseteq> visited g st"
        by blast
      from chain_last[OF p(1)] have "p \<noteq> []" "last p = u" by simp_all
      with set_butlast_last[of p] p(5) vnv False have "v \<notin> set p"
        by auto
      from chain_upd[OF p(1) this] have "chain (previous st') u p"
        by (simp add: prev')
      with p show ?thesis
        by (auto simp: vis')
    qed
  qed
  have rel': "relaxed g st' a b" if a: "a \<in> visited g st" and ab: "a \<noteq> c \<or> b \<in> insert v P" for a b
    unfolding relaxed_def
  proof (intro allI impI, elim conjE)
    fix w' x
    assume wab: "weight g a b = Some w'" and xa: "distances st' a = Some (Fin x)"
    from a vnv have av: "a \<noteq> v" by blast
    with xa have xa0: "distances st a = Some (Fin x)" by (simp add: dist')
    show "\<not> num_lt (num_add (Fin x) (Fin w')) (to_num (distances st' b))"
    proof (cases "b = v")
      case True
      then have tv: "to_num (distances st' b) = Fin r"
        by (simp add: dist' to_num_def)
      show ?thesis
      proof (cases "a = c")
        case True
        with xa0 dc wab wcv \<open>b = v\<close> have "x = du" "w' = w" by simp_all
        then have "num_add (Fin x) (Fin w') = Fin r"
          using alt by (simp only: alt_def)
        then show ?thesis
          unfolding tv by (simp only: num_lt_irrefl not_False_eq_True)
      next
        case False
        with rel[OF a] have "relaxed g st a v" by blast
        with wab xa0 \<open>b = v\<close> have n: "\<not> num_lt (num_add (Fin x) (Fin w')) (to_num (distances st v))"
          unfolding relaxed_def by blast
        show ?thesis
          unfolding tv
        proof
          assume "num_lt (num_add (Fin x) (Fin w')) (Fin r)"
          from num_lt_trans[OF this old] n show False by contradiction
        qed
      qed
    next
      case False
      with ab have "a \<noteq> c \<or> b \<in> P" by blast
      with rel[OF a] wab xa0 have "\<not> num_lt (num_add (Fin x) (Fin w')) (to_num (distances st b))"
        unfolding relaxed_def by blast
      moreover from False have "distances st' b = distances st b"
        by (simp add: dist')
      ultimately show ?thesis
        by simp
    qed
  qed
  show ?thesis
    unfolding scan_inv_def
  proof (intro conjI ballI allI impI)
    show "reach_inv g s st'" by (rule r')
    show "tree_inv g s st'" by (rule t')
    show "c \<in> visited g st'" using cv by (simp add: vis')
    show "distances st' c = Some (Fin du)" using vc dc by (simp add: dist')
  next
    fix a assume "a \<in> visited g st'"
    then have a: "a \<in> visited g st" by (simp add: vis')
    with vnv have "a \<noteq> v" by blast
    with vis[OF a] show "\<exists>x. distances st' a = Some (Fin x) \<and> x \<le> du"
      by (simp add: dist')
  next
    fix b y assume "b \<in> set (unvisited st')" and "distances st' b = Some (Fin y)"
    then show "du \<le> y"
      using unv[of b y] dur by (auto simp: unv' dist' split: if_splits)
  next
    fix a b assume "a \<in> visited g st'" and "a \<noteq> c \<or> b \<in> insert v P"
    then show "relaxed g st' a b"
      using rel'[of a b] by (simp add: vis')
  qed
qed

lemma scan_relax:
  assumes inv: "scan_inv g s c du P st" and adj: "map_of g c = Some adj" and nn: "nonneg_weights g"
  shows "scan_inv g s c du (insert v P) (relax adj c st v)"
proof -
  from inv have r: "reach_inv g s st" and dc: "distances st c = Some (Fin du)"
    unfolding scan_inv_def by blast+
  have tn: "to_num (distances st c) = Fin du"
    by (simp add: dc to_num_def)
  have r': "reach_inv g s (relax adj c st v)"
    using r adj by (rule reach_inv_relax)
  show ?thesis
  proof (cases rule: relax_cases[of adj c st v])
    case keep
    have "relaxed g st c v"
      using adj keep(2) by (rule relaxed_keep)
    with inv show ?thesis
      unfolding keep(1) by (rule scan_inv_keep)
  next
    case (update w)
    show ?thesis
      using inv adj nn update(1) update(2)[unfolded tn] update(3)[unfolded tn] r'
      by (rule scan_inv_update)
  qed
qed

lemma scan_foldl:
  assumes "scan_inv g s c du P st" and "map_of g c = Some adj" and "nonneg_weights g"
  shows "scan_inv g s c du (P \<union> set ns) (foldl (relax adj c) st ns)"
  using assms(1)
proof (induction ns arbitrary: st P)
  case Nil
  then show ?case by simp
next
  case (Cons v ns)
  from scan_relax[OF Cons.prems assms(2,3)] have "scan_inv g s c du (insert v P) (relax adj c st v)" .
  from Cons.IH[OF this] show ?case by simp
qed

lemma dijkstra_inv_init: "dijkstra_inv g s (init_state g s)"
proof -
  have v: "visited g (init_state g s) = {}"
    by (simp add: visited_def init_state_simps nodes_def)
  have "chain (previous (init_state g s)) s [s]"
    by (rule chain_start) (simp add: init_state_simps)
  then have "tree_inv g s (init_state g s)"
    unfolding tree_inv_def by (auto simp: init_state_simps double_weight_single split: if_splits)
  moreover have "settled_inv g (init_state g s)"
    by (simp add: settled_inv_def v)
  ultimately show ?thesis
    by (simp add: dijkstra_inv_def reach_inv_init)
qed

lemma tree_inv_mono:
  assumes "tree_inv g s st" and "set U \<subseteq> set (unvisited st)"
  shows "tree_inv g s (st\<lparr>unvisited := U\<rparr>)"
proof -
  have "visited g st \<subseteq> visited g (st\<lparr>unvisited := U\<rparr>)"
    using assms(2) by (auto simp: visited_def)
  with assms(1) show ?thesis
    unfolding tree_inv_def by (simp, blast)
qed

lemma dijkstra_inv_step:
  assumes inv: "dijkstra_inv g s st" and nn: "nonneg_weights g" and c: "loop_body g e st = Continue st'"
  shows "dijkstra_inv g s st'"
proof -
  from c obtain x xs adj where u: "unvisited st = x # xs"
    and fin: "distances st (foldl (closer (distances st)) x xs) \<noteq> Some Infinity"
    and adj: "map_of g (foldl (closer (distances st)) x xs) = Some adj"
    and st': "st' = foldl (relax adj (foldl (closer (distances st)) x xs))
                 (st\<lparr>unvisited := removeAll (foldl (closer (distances st)) x xs) (unvisited st)\<rparr>)
                 (map fst adj)"
    by (rule loop_body_Continue)
  define c where "c = foldl (closer (distances st)) x xs"
  define st0 where "st0 = st\<lparr>unvisited := removeAll c (unvisited st)\<rparr>"
  note adj = adj[folded c_def] and fin = fin[folded c_def] and st' = st'[folded c_def, folded st0_def]
  from inv have r: "reach_inv g s st" and t: "tree_inv g s st" and se: "settled_inv g st"
    unfolding dijkstra_inv_def by simp_all
  have cu: "c \<in> set (unvisited st)"
    unfolding c_def u by (rule closer_mem)
  with r have cn: "c \<in> nodes g"
    unfolding reach_inv_def by blast
  with r have dn: "distances st c \<noteq> None"
    unfolding reach_inv_def by blast
  from r t dn fin obtain du where dc: "distances st c = Some (Fin du)"
    by (cases rule: fin_cases) auto
  have nonan: "\<forall>b \<in> set (x # xs). to_num (distances st b) \<noteq> NaN"
  proof
    fix b assume "b \<in> set (x # xs)"
    with r u have "distances st b \<noteq> None" "distances st b \<noteq> Some NaN"
      unfolding reach_inv_def by auto
    then show "to_num (distances st b) \<noteq> NaN"
      by (auto simp: to_num_def)
  qed
  from closer_min[OF this]
  have cmin: "\<And>b. b \<in> set (unvisited st) \<Longrightarrow> \<not> num_lt (to_num (distances st b)) (Fin du)"
    unfolding u c_def[symmetric] by (auto simp: dc to_num_def)
  have v0: "visited g st0 = insert c (visited g st)"
    using cn by (auto simp: visited_def st0_def)
  have "scan_inv g s c du {} st0"
    unfolding scan_inv_def
  proof (intro conjI ballI allI impI)
    show "reach_inv g s st0"
      unfolding st0_def by (rule reach_inv_unvisited[OF r]) auto
    show "tree_inv g s st0"
      unfolding st0_def by (rule tree_inv_mono[OF t]) auto
    show "c \<in> visited g st0"
      by (simp add: v0)
    show "distances st0 c = Some (Fin du)"
      by (simp add: st0_def dc)
  next
    fix a assume "a \<in> visited g st0"
    then consider "a = c" | "a \<in> visited g st"
      by (auto simp: v0)
    then show "\<exists>x. distances st0 a = Some (Fin x) \<and> x \<le> du"
    proof cases
      case 1
      then show ?thesis by (simp add: st0_def dc)
    next
      case 2
      with se cu dc show ?thesis
        unfolding settled_inv_def by (fastforce simp: st0_def)
    qed
  next
    fix b y assume "b \<in> set (unvisited st0)" and "distances st0 b = Some (Fin y)"
    then have "b \<in> set (unvisited st)" and "distances st b = Some (Fin y)"
      by (simp_all add: st0_def)
    with cmin[of b] show "du \<le> y"
      by (simp add: to_num_def)
  next
    fix a b :: key assume "a \<in> visited g st0" and "a \<noteq> c \<or> b \<in> {}"
    then have "a \<in> visited g st"
      by (simp add: v0)
    with se have "relaxed g st a b"
      unfolding settled_inv_def by blast
    then show "relaxed g st0 a b"
      by (simp add: relaxed_def st0_def)
  qed
  from scan_foldl[OF this adj nn, of "map fst adj"]
  have sc: "scan_inv g s c du (set (map fst adj)) st'"
    by (simp add: st')
  then have r': "reach_inv g s st'" and t': "tree_inv g s st'"
    and vis: "\<And>a. a \<in> visited g st' \<Longrightarrow> \<exists>x. distances st' a = Some (Fin x) \<and> x \<le> du"
    and unv: "\<And>b y. b \<in> set (unvisited st') \<Longrightarrow> distances st' b = Some (Fin y) \<Longrightarrow> du \<le> y"
    and rel: "\<And>a b. a \<in> visited g st' \<Longrightarrow> a \<noteq> c \<or> b \<in> set (map fst adj) \<Longrightarrow> relaxed g st' a b"
    unfolding scan_inv_def by blast+
  have "settled_inv g st'"
    unfolding settled_inv_def
  proof (intro ballI conjI allI impI)
    fix a assume a: "a \<in> visited g st'"
    from vis[OF a] show "\<exists>x. distances st' a = Some (Fin x)" by blast
    show "relaxed g st' a b" for b
    proof (cases "a \<noteq> c \<or> b \<in> set (map fst adj)")
      case True
      with a show ?thesis by (rule rel)
    next
      case False
      then have "a = c" and "b \<notin> fst ` set adj" by simp_all
      then have "weight g a b = None"
        using adj by (simp add: weight_map_of map_of_eq_None_iff)
      then show ?thesis by (simp add: relaxed_def)
    qed
    fix b x y
    assume "b \<in> set (unvisited st')" and "distances st' a = Some (Fin x) \<and> distances st' b = Some (Fin y)"
    with vis[OF a] unv[of b y] show "x \<le> y" by fastforce
  qed
  with r' t' show ?thesis
    by (simp add: dijkstra_inv_def)
qed

lemma dijkstra_inv_nothrow:
  "dijkstra_inv g s st \<Longrightarrow> unvisited st \<noteq> [] \<Longrightarrow> loop_body g e st \<noteq> Throw err"
  unfolding dijkstra_inv_def using reach_inv_nothrow[of g s st e err] by simp

lemma dijkstra_loop_inv:
  assumes "nonneg_weights g"
  shows "\<exists>st. dijkstra_loop g s e = Inr st \<and> dijkstra_inv g s st \<and>
           (unvisited st = [] \<or> loop_body g e st = Break)"
  unfolding dijkstra_loop_def
proof (rule main_loop_rule[where I = "dijkstra_inv g s"])
  show "dijkstra_inv g s (init_state g s)"
    by (rule dijkstra_inv_init)
  show "dijkstra_inv g s st'" if "dijkstra_inv g s st" "loop_body g e st = Continue st'" for st st'
    using that(1) assms that(2) by (rule dijkstra_inv_step)
  show "loop_body g e st \<noteq> Throw err" if "dijkstra_inv g s st" "unvisited st \<noteq> []" for st err
    using that by (rule dijkstra_inv_nothrow)
qed

lemma unvisited_not_NaN:
  assumes "reach_inv g s st" and "b \<in> set (unvisited st)"
  shows "to_num (distances st b) \<noteq> NaN"
proof -
  from assms have "b \<in> nodes g"
    unfolding reach_inv_def by blast
  with assms(1) have "distances st b \<noteq> None" "distances st b \<noteq> Some NaN"
    unfolding reach_inv_def by blast+
  then show ?thesis
    by (auto simp: to_num_def)
qed

text \<open>
  The accumulated weight of a route from \<open>start\<close> to \<open>v\<close> is not below the distance of
  \<open>v\<close>, or not below the distance of some unvisited node.
\<close>

lemma lower_bound:
  assumes inv: "dijkstra_inv g s st" and nn: "nonneg_weights g"
  shows "route_from_to g s v q \<Longrightarrow>
         \<not> num_lt (double_weight g q) (to_num (distances st v)) \<or>
         (\<exists>b \<in> set (unvisited st). \<not> num_lt (double_weight g q) (to_num (distances st b)))"
proof (induction q arbitrary: v rule: rev_induct)
  case Nil
  then show ?case by (simp add: route_from_to_def)
next
  case (snoc b q)
  from inv have r: "reach_inv g s st" and t: "tree_inv g s st" and se: "settled_inv g st"
    unfolding dijkstra_inv_def by simp_all
  show ?case
  proof (cases "q = []")
    case True
    with snoc.prems have "v = s" "double_weight g (q @ [b]) = Fin 0"
      by (auto simp: route_from_to_def double_weight_def)
    moreover from t have "to_num (distances st s) = Fin 0"
      by (simp add: tree_inv_def to_num_def)
    ultimately show ?thesis
      by simp
  next
    case False
    with snoc.prems(1) have q: "route_from_to g s (last q) q" and bv: "b = v"
      and e: "weight g (last q) v \<noteq> None" and wq: "walk g q"
      by (auto simp: route_from_to_def walk_snoc)
    from e obtain w where w: "weight g (last q) v = Some w" by blast
    with nn have w0: "0 \<le> w" by (rule nonneg_weight)
    define D where "D = double_weight g q"
    define D' where "D' = double_weight g (q @ [b])"
    have D': "D' = num_add D (Fin w)"
      unfolding D'_def D_def bv using False w by (rule double_weight_snoc)
    have gD: "nonneg_num D"
      unfolding D_def using nn wq by (rule nonneg_double_weight)
    have gD': "nonneg_num D'" and ge: "\<not> num_lt D' D"
      unfolding D' by (rule nonneg_num_add[OF gD w0])+
    have unvisited_case: ?thesis if c: "c \<in> set (unvisited st)" and le: "\<not> num_lt D (to_num (distances st c))" for c
    proof -
      have "\<not> num_lt D' (to_num (distances st c))"
        using ge le nonneg_num_NaN[OF gD'] nonneg_num_NaN[OF gD] unvisited_not_NaN[OF r c]
        by (rule num_ge_trans)
      with c show ?thesis
        unfolding D'_def by blast
    qed
    from w have un: "last q \<in> nodes g" by (rule weight_nodes)
    from snoc.IH[OF q] show ?thesis
    proof (elim disjE bexE)
      assume le: "\<not> num_lt (double_weight g q) (to_num (distances st (last q)))"
      show ?thesis
      proof (cases "last q \<in> set (unvisited st)")
        case True
        then show ?thesis using le[folded D_def] by (rule unvisited_case)
      next
        case False
        with un have vq: "last q \<in> visited g st" by (simp add: visited_def)
        with se obtain x where x: "distances st (last q) = Some (Fin x)"
          and rel: "relaxed g st (last q) v"
          unfolding settled_inv_def by blast
        from rel w x have n: "\<not> num_lt (num_add (Fin x) (Fin w)) (to_num (distances st v))"
          unfolding relaxed_def by blast
        from t x have nx: "nonneg_num (Fin x)"
          by (simp add: tree_inv_def nonneg_num_def)
        from le x have le': "\<not> num_lt D (Fin x)"
          by (simp add: D_def to_num_def)
        have m: "\<not> num_lt D' (num_add (Fin x) (Fin w))"
          unfolding D' using nx gD le' w0 by (rule num_add_mono)
        have gx: "nonneg_num (num_add (Fin x) (Fin w))"
          using nx w0 by (rule nonneg_num_add)
        have "\<not> num_lt D' (to_num (distances st v))"
        proof (cases "to_num (distances st v) = NaN")
          case True
          then show ?thesis by (cases D') simp_all
        next
          case False
          with m n nonneg_num_NaN[OF gD'] nonneg_num_NaN[OF gx] show ?thesis
            by (rule num_ge_trans)
        qed
        then show ?thesis
          unfolding D'_def by blast
      qed
    next
      fix c assume "c \<in> set (unvisited st)" "\<not> num_lt (double_weight g q) (to_num (distances st c))"
      then show ?thesis
        unfolding D_def[symmetric] by (rule unvisited_case)
    qed
  qed
qed

lemma exit_minimal:
  assumes r: "reach_inv g s st" and ex: "unvisited st = [] \<or> loop_body g e st = Break"
    and b: "b \<in> set (unvisited st)" and le: "\<not> num_lt d (to_num (distances st b))" and d: "d \<noteq> NaN"
  shows "\<not> num_lt d (to_num (distances st e))"
proof -
  from b obtain x0 xs where u: "unvisited st = x0 # xs"
    by (cases "unvisited st") auto
  define c where "c = foldl (closer (distances st)) x0 xs"
  from ex u have brk: "distances st c = Some Infinity \<or> c = e"
    by (auto simp: loop_body_def Let_def c_def split: if_splits option.splits)
  have cu: "c \<in> set (unvisited st)"
    unfolding c_def u by (rule closer_mem)
  have "\<forall>b \<in> set (x0 # xs). to_num (distances st b) \<noteq> NaN"
    using unvisited_not_NaN[OF r] u by simp
  from closer_min[OF this] b have "\<not> num_lt (to_num (distances st b)) (to_num (distances st c))"
    unfolding u c_def by blast
  with le have n: "\<not> num_lt d (to_num (distances st c))"
    using d unvisited_not_NaN[OF r b] unvisited_not_NaN[OF r cu] by (rule num_ge_trans)
  from brk show ?thesis
  proof
    assume "distances st c = Some Infinity"
    with n have "d = Infinity"
      using d by (cases d) (simp_all add: to_num_def)
    then show ?thesis by simp
  next
    assume "c = e"
    with n show ?thesis by simp
  qed
qed

lemma map_stringify_parse: "map (JSON_stringify \<circ> JSON_parse) p = p"
  by (induction p) simp_all

lemma computed_distance_eq: "dijkstra_loop g s e = Inr st \<Longrightarrow> computed_distance g s e = distances st e"
  by (simp add: computed_distance_def)

lemma dijkstra_result:
  assumes nn: "nonneg_weights g"
  shows "\<exists>p. dijkstra g (Some s) (Some e) = Some (Inr (Path p)) \<and>
          (2 \<le> length p \<longrightarrow>
             hd p = JSON_parse s \<and> last p = JSON_parse e \<and> walk g (map JSON_stringify p) \<and>
             computed_distance g s e = Some (double_weight g (map JSON_stringify p)) \<and>
             (\<forall>q. route_from_to g s e q \<longrightarrow>
                \<not> num_lt (double_weight g q) (double_weight g (map JSON_stringify p))))"
proof -
  from dijkstra_loop_inv[OF nn, of s e] obtain st where st: "dijkstra_loop g s e = Inr st"
    and inv: "dijkstra_inv g s st" and ex: "unvisited st = [] \<or> loop_body g e st = Break"
    by blast
  from inv have r: "reach_inv g s st" and t: "tree_inv g s st"
    unfolding dijkstra_inv_def by simp_all
  show ?thesis
  proof (cases "\<exists>x. distances st e = Some (Fin x)")
    case True
    then obtain x where x: "distances st e = Some (Fin x)" ..
    then have tx: "to_num (distances st e) = Fin x"
      by (simp add: to_num_def)
    from x t obtain p where p: "chain (previous st) e p" "hd p = s" "walk g p" "double_weight g p = Fin x"
      unfolding tree_inv_def by blast
    from chain_last[OF p(1)] have pl: "p \<noteq> []" "last p = e" by simp_all
    have d: "dijkstra g (Some s) (Some e) = Some (Inr (Path (map JSON_parse p)))"
      by (simp add: dijkstra_def st chain_reconstruct[OF p(1)])
    have opt: "\<not> num_lt (double_weight g q) (Fin x)" if q: "route_from_to g s e q" for q
    proof -
      from q have "walk g q" by (simp add: route_from_to_def)
      with nn have "nonneg_num (double_weight g q)" by (rule nonneg_double_weight)
      then have nan: "double_weight g q \<noteq> NaN" by (rule nonneg_num_NaN)
      from lower_bound[OF inv nn q] show ?thesis
      proof (elim disjE bexE)
        assume "\<not> num_lt (double_weight g q) (to_num (distances st e))"
        then show ?thesis unfolding tx .
      next
        fix b assume "b \<in> set (unvisited st)" "\<not> num_lt (double_weight g q) (to_num (distances st b))"
        from exit_minimal[OF r ex this nan] show ?thesis unfolding tx .
      qed
    qed
    have "hd (map JSON_parse p) = JSON_parse s" "last (map JSON_parse p) = JSON_parse e"
      using pl p(2) by (simp_all add: hd_map last_map)
    with d p(3,4) x opt show ?thesis
      by (intro exI[of _ "map JSON_parse p"]) (simp add: map_stringify_parse computed_distance_eq[OF st])
  next
    case False
    have "previous st e = None"
    proof (cases "previous st e")
      case (Some u)
      with r have "num_lt (to_num (distances st e)) Infinity"
        unfolding reach_inv_def by blast
      with False t show ?thesis
        by (cases "distances st e"; cases "the (distances st e)") (auto simp: to_num_def tree_inv_def)
    qed
    then have "dijkstra g (Some s) (Some e) = Some (Inr (Path [JSON_parse e]))"
      by (simp add: dijkstra_def st reconstruct.simps)
    then show ?thesis by simp
  qed
qed

text \<open>
  The two graphs on which rounding shows: their weights are doubles, and \<open>1 + w_BC\<close>
  rounds to \<open>w_AC\<close>.
\<close>

lemma expo_w_AC: "expo w_AC = 0" and expo_sum: "expo (1 + w_BC) = 0" and expo_w_BC: "expo w_BC = - 53"
  by (rule expo_eqI; simp add: w_AC_def w_BC_def)+

lemma double_w_AC: "double w_AC"
proof (rule double_grid)
  show "w_AC = of_int (2 ^ 52 + 1) * ulp w_AC"
    unfolding ulp_def expo_w_AC by (simp add: w_AC_def)
  show "\<bar>w_AC\<bar> < 2 powi 1024"
    using two_powi_strict_mono[of 1 1024] by (simp add: w_AC_def)
qed

lemma double_w_BC: "double w_BC"
proof (rule double_grid)
  show "w_BC = of_int (3 * 2 ^ 51) * ulp w_BC"
    unfolding ulp_def expo_w_BC by (simp add: w_BC_def)
  show "\<bar>w_BC\<bar> < 2 powi 1024"
    using two_powi_strict_mono[of 0 1024] by (simp add: w_BC_def)
qed

lemma round_sum: "round_double (1 + w_BC) = Fin w_AC"
proof -
  have q: "(1 + w_BC) / ulp (1 + w_BC) = 2 ^ 52 + 3 / 4"
    unfolding ulp_def expo_sum by (simp add: w_BC_def)
  have "round_even (2 ^ 52 + 3 / 4) = 2 ^ 52 + 1"
  proof -
    have "\<lfloor>(2 ^ 52 + 3 / 4 :: real)\<rfloor> = 2 ^ 52"
      by (rule floor_unique) simp_all
    then show ?thesis
      by (simp add: round_even_def)
  qed
  then have "to_nearest (1 + w_BC) = w_AC"
    unfolding to_nearest_def q by (simp only: ulp_def expo_sum) (simp add: w_AC_def)
  moreover have "\<bar>w_AC\<bar> < 2 powi 1024"
    using two_powi_strict_mono[of 1 1024] by (simp add: w_AC_def)
  ultimately show ?thesis
    by (simp add: round_double_def abs_less_iff)
qed

lemma w_order: "1 < w_AC" "\<not> w_AC < 1" "\<not> w_AC < 0" "\<not> w_AC < w_AC" "1 + w_BC < w_AC" "1 + w_BC \<noteq> w_AC"
  by (simp_all add: w_AC_def w_BC_def)

lemma rounding_sums: "round_double (1 + w_BC) = Fin w_AC" "round_double w_AC = Fin w_AC"
  using round_sum double_w_AC by (simp_all add: double_def)

lemma rounding_dijkstra:
  "dijkstra rounding_triangle (Some node_A) (Some node_C) = Some (Inr (Path [(0, 0), (1, 1)]))"
  "dijkstra rounding_chain (Some node_A) (Some node_C) = Some (Inr (Path [(0, 0), (0, 1), (1, 1)]))"
  "computed_distance rounding_chain node_A node_C = Some (Fin w_AC)"
  by (simp_all add: rounding_triangle_def rounding_chain_def computed_distance_def engine_defs
      rounding_sums w_order)

text \<open>
  C2, as stated: on a graph with non-negative weights the total weight of the edges of
  the returned path equals the computed \<open>distances[end]\<close>, and it is the least total
  weight of a route from \<open>start\<close> to \<open>end\<close>. Both fail for the sum of the weights,
  because line 105 rounds every sum to a double. In the triangle with the edges A--B of
  weight \<open>1\<close>, A--C of weight \<open>1 + 1 / 2 ^ 52\<close> and B--C of weight \<open>3 / 2 ^ 54\<close>, all
  three doubles, the sum for the way over B rounds to the weight of A--C, so the engine
  keeps \<open>[A, C]\<close>, although \<open>[A, B, C]\<close> weighs less. Without the edge A--C the engine
  returns \<open>[A, B, C]\<close>, and \<open>distances[C]\<close> is \<open>1 + 1 / 2 ^ 52\<close>, which is not the sum
  of the two weights.
\<close>

theorem dijkstra_shortest_path_counterexample:
  "nonneg_weights rounding_triangle \<and> nonneg_weights rounding_chain \<and>
   double 1 \<and> double w_AC \<and> double w_BC \<and>
   dijkstra rounding_triangle (Some node_A) (Some node_C) = Some (Inr (Path [(0, 0), (1, 1)])) \<and>
   route_from_to rounding_triangle node_A node_C [node_A, node_B, node_C] \<and>
   path_weight rounding_triangle [node_A, node_B, node_C] < path_weight rounding_triangle [node_A, node_C] \<and>
   dijkstra rounding_chain (Some node_A) (Some node_C) = Some (Inr (Path [(0, 0), (0, 1), (1, 1)])) \<and>
   computed_distance rounding_chain node_A node_C = Some (Fin w_AC) \<and>
   path_weight rounding_chain [node_A, node_B, node_C] = 1 + w_BC \<and>
   computed_distance rounding_chain node_A node_C \<noteq>
     Some (Fin (path_weight rounding_chain [node_A, node_B, node_C]))"
proof -
  have nn: "nonneg_weights rounding_triangle" "nonneg_weights rounding_chain"
    by (simp_all add: nonneg_weights_def rounding_triangle_def rounding_chain_def w_AC_def w_BC_def)
  have d: "double 1" "double w_AC" "double w_BC"
    using double_w_AC double_w_BC by (simp_all add: double_def)
  have r: "route_from_to rounding_triangle node_A node_C [node_A, node_B, node_C]"
    by (simp add: route_from_to_def rounding_triangle_def weight_def)
  have w: "path_weight rounding_triangle [node_A, node_B, node_C] = 1 + w_BC"
    "path_weight rounding_triangle [node_A, node_C] = w_AC"
    "path_weight rounding_chain [node_A, node_B, node_C] = 1 + w_BC"
    by (simp_all add: rounding_triangle_def rounding_chain_def weight_def)
  have lt: "path_weight rounding_triangle [node_A, node_B, node_C] < path_weight rounding_triangle [node_A, node_C]"
    unfolding w by (rule w_order)
  have ne: "computed_distance rounding_chain node_A node_C \<noteq>
     Some (Fin (path_weight rounding_chain [node_A, node_B, node_C]))"
    unfolding w rounding_dijkstra using w_order(6) by simp
  from nn d rounding_dijkstra(1) r lt rounding_dijkstra(2,3) w(3) ne show ?thesis
    by (intro conjI)
qed

text \<open>
  C2, amended: on a graph with non-negative edge weights the engine returns a path for
  every pair of keys. When the returned path has at least two coordinates, it begins at
  \<open>start\<close> and ends at \<open>end\<close>, every consecutive pair of its coordinates is an edge of
  the graph, the weight of the path as the engine accumulates it, adding the edge
  weights in path order from \<open>start\<close> and rounding every sum to a double, is the value
  the engine has computed in \<open>distances[end]\<close>, and no route from \<open>start\<close> to \<open>end\<close>
  in the graph has a smaller accumulated weight. In the scenario (edges A--B of weight
  10 and B--C of weight 5, no edge A--C) the path from A to C is \<open>[A, B, C]\<close>, of total
  weight 15, accumulated or exact.
\<close>

theorem dijkstra_shortest_path:
  assumes "nonneg_weights g"
  shows "(\<exists>p. dijkstra g (Some s) (Some e) = Some (Inr (Path p)) \<and>
          (2 \<le> length p \<longrightarrow>
             hd p = JSON_parse s \<and> last p = JSON_parse e \<and> walk g (map JSON_stringify p) \<and>
             computed_distance g s e = Some (double_weight g (map JSON_stringify p)) \<and>
             (\<forall>q. route_from_to g s e q \<longrightarrow>
                \<not> num_lt (double_weight g q) (double_weight g (map JSON_stringify p))))) \<and>
         dijkstra scenario_graph (Some node_A) (Some node_C) = Some (Inr (Path [(0, 0), (0, 1), (1, 1)])) \<and>
         double_weight scenario_graph [node_A, node_B, node_C] = Fin 15 \<and>
         path_weight scenario_graph [node_A, node_B, node_C] = 15"
proof (intro conjI)
  show "\<exists>p. dijkstra g (Some s) (Some e) = Some (Inr (Path p)) \<and>
          (2 \<le> length p \<longrightarrow>
             hd p = JSON_parse s \<and> last p = JSON_parse e \<and> walk g (map JSON_stringify p) \<and>
             computed_distance g s e = Some (double_weight g (map JSON_stringify p)) \<and>
             (\<forall>q. route_from_to g s e q \<longrightarrow>
                \<not> num_lt (double_weight g q) (double_weight g (map JSON_stringify p))))"
    using assms by (rule dijkstra_result)
  show "dijkstra scenario_graph (Some node_A) (Some node_C) = Some (Inr (Path [(0, 0), (0, 1), (1, 1)]))"
    by (rule scenario_dijkstra)
  show "double_weight scenario_graph [node_A, node_B, node_C] = Fin 15"
    by (simp add: scenario_graph_def weight_def double_weight_def to_num_def)
  show "path_weight scenario_graph [node_A, node_B, node_C] = 15"
    by (simp add: scenario_graph_def weight_def)
qed

theorem dijkstra_shortest_path_witness:
  "nonneg_weights triangle_graph \<and>
   dijkstra triangle_graph (Some node_A) (Some node_C) = Some (Inr (Path [(0, 0), (0, 1), (1, 1)])) \<and>
   walk triangle_graph [node_A, node_B, node_C] \<and>
   computed_distance triangle_graph node_A node_C = Some (Fin 15) \<and>
   double_weight triangle_graph [node_A, node_B, node_C] = Fin 15 \<and>
   route_from_to triangle_graph node_A node_C [node_A, node_C] \<and>
   double_weight triangle_graph [node_A, node_C] = Fin 20 \<and>
   \<not> num_lt (double_weight triangle_graph [node_A, node_C])
            (double_weight triangle_graph [node_A, node_B, node_C])"
proof -
  have nn: "nonneg_weights triangle_graph"
    by (simp add: nonneg_weights_def triangle_graph_def)
  have d: "dijkstra triangle_graph (Some node_A) (Some node_C) = Some (Inr (Path [(0, 0), (0, 1), (1, 1)]))"
    by (simp add: triangle_graph_def engine_defs)
  have q: "route_from_to triangle_graph node_A node_C [node_A, node_C]"
    by (simp add: route_from_to_def triangle_graph_def weight_def)
  have w: "double_weight triangle_graph [node_A, node_B, node_C] = Fin 15"
    "double_weight triangle_graph [node_A, node_C] = Fin 20"
    by (simp_all add: triangle_graph_def weight_def double_weight_def to_num_def)
  from dijkstra_shortest_path[OF nn, of node_A node_C] d
  have "walk triangle_graph (map JSON_stringify [(0, 0), (0, 1), (1, 1)]) \<and>
        computed_distance triangle_graph node_A node_C =
          Some (double_weight triangle_graph (map JSON_stringify [(0, 0), (0, 1), (1, 1)])) \<and>
        (\<forall>q. route_from_to triangle_graph node_A node_C q \<longrightarrow>
           \<not> num_lt (double_weight triangle_graph q)
                    (double_weight triangle_graph (map JSON_stringify [(0, 0), (0, 1), (1, 1)])))"
    by auto
  with q have "walk triangle_graph [node_A, node_B, node_C] \<and>
     computed_distance triangle_graph node_A node_C = Some (double_weight triangle_graph [node_A, node_B, node_C]) \<and>
     \<not> num_lt (double_weight triangle_graph [node_A, node_C])
              (double_weight triangle_graph [node_A, node_B, node_C])"
    by auto
  with nn d q w show ?thesis
    by (simp only: simp_thms)
qed

section \<open>Coordinate order\<close>

lemma segments_transpose:
  "segments (transpose_coords road) = map (\<lambda>(p, q). ((snd p, fst p), (snd q, fst q))) (segments road)"
proof -
  have "zip (map f xs) (map f (tl xs)) = map (\<lambda>(p, q). (f p, f q)) (zip xs (tl xs))" for f :: "coord \<Rightarrow> coord" and xs
    by (simp add: zip_map_map)
  from this[of "\<lambda>(lng, lat). (lat, lng)" road] show ?thesis
    by (simp add: segments_def transpose_coords_def map_tl case_prod_beta)
qed

lemma segments_ends: "fst ` set (segments cs) \<union> snd ` set (segments cs) = (if 2 \<le> length cs then set cs else {})"
  by (induction cs rule: induct_list012) (auto simp: segments_def)

lemma weight_add_all_source:
  "weight (add_all D g segs) x y = Some w \<Longrightarrow>
   weight g x y = Some w \<or> (\<exists>s \<in> set segs. ends (fst s) (snd s) x y \<and> w = D (fst s) (snd s))"
proof (induction segs arbitrary: g)
  case Nil
  then show ?case by (simp add: add_all_simps)
next
  case (Cons s segs)
  from Cons.IH[of "add_segment D (fst s) (snd s) g"] Cons.prems
  consider "weight (add_segment D (fst s) (snd s) g) x y = Some w"
    | "\<exists>s \<in> set segs. ends (fst s) (snd s) x y \<and> w = D (fst s) (snd s)"
    by (auto simp: add_all_simps)
  then show ?case
  proof cases
    case 1
    show ?thesis
    proof (cases "ends (fst s) (snd s) x y")
      case True
      with 1 have "w = D (fst s) (snd s)"
        by (simp add: weight_add_segment_hit)
      with True show ?thesis by simp
    next
      case False
      with 1 show ?thesis by (simp add: weight_add_segment_miss)
    qed
  next
    case 2
    then show ?thesis by auto
  qed
qed

lemma nodes_build:
  "nodes (buildAdjacencyList D features) =
     (\<Union>road \<in> {r \<in> set features. 2 \<le> length r}. (\<lambda>(lng, lat). JSON_stringify (lat, lng)) ` set road)"
proof -
  have "fst ` set (all_segments features) \<union> snd ` set (all_segments features) =
        (\<Union>road \<in> set features. fst ` set (segments (transpose_coords road)) \<union>
                                  snd ` set (segments (transpose_coords road)))"
    by (auto simp: all_segments_def)
  also have "\<dots> = (\<Union>road \<in> set features. if 2 \<le> length road then set (transpose_coords road) else {})"
    by (simp add: segments_ends transpose_coords_def)
  also have "\<dots> = (\<Union>road \<in> {r \<in> set features. 2 \<le> length r}. (\<lambda>(lng, lat). (lat, lng)) ` set road)"
    by (auto simp: transpose_coords_def split: if_splits)
  finally have "JSON_stringify ` (fst ` set (all_segments features) \<union> snd ` set (all_segments features)) =
        (\<Union>road \<in> {r \<in> set features. 2 \<le> length r}. (\<lambda>(lng, lat). JSON_stringify (lat, lng)) ` set road)"
    by (auto simp: image_UN image_image case_prod_beta)
  moreover have "nodes [] = {}"
    by (simp add: nodes_def)
  ultimately show ?thesis
    unfolding build_add_all nodes_add_all by (simp add: image_Un)
qed

lemma weight_build_source:
  assumes "weight (buildAdjacencyList D features) x y = Some w"
  shows "\<exists>road \<in> set features. \<exists>s \<in> set (segments road).
           ends (snd (fst s), fst (fst s)) (snd (snd s), fst (snd s)) x y \<and>
           w = D (snd (fst s), fst (fst s)) (snd (snd s), fst (snd s))"
proof -
  from weight_add_all_source[OF assms[unfolded build_add_all]]
  obtain t where "t \<in> set (all_segments features)" "ends (fst t) (snd t) x y" "w = D (fst t) (snd t)"
    by (auto simp: weight_def)
  then obtain road u where "road \<in> set features" "u \<in> set (segments road)"
    "t = ((snd (fst u), fst (fst u)), (snd (snd u), fst (snd u)))"
    by (auto simp: all_segments_def segments_transpose case_prod_beta)
  with \<open>ends (fst t) (snd t) x y\<close> \<open>w = D (fst t) (snd t)\<close> show ?thesis
    by (intro bexI[of _ road] bexI[of _ u]) simp_all
qed

lemma findNearestNode_cong:
  assumes "\<forall>k \<in> nodes g. D t (JSON_parse k) = D' t (JSON_parse k)"
  shows "findNearestNode D g t = findNearestNode D' g t"
proof -
  have "foldl (nearer D t) acc ns = foldl (nearer D' t) acc ns"
    if "\<forall>k \<in> set ns. D t (JSON_parse k) = D' t (JSON_parse k)" for acc ns
    using that by (induction ns arbitrary: acc) (simp_all add: nearer_def)
  from this[of "map fst g"] assms show ?thesis
    by (simp add: findNearestNode_def nodes_def)
qed

lemma handleNavigation_cong:
  assumes "\<forall>c \<in> selected_coords st. \<forall>k \<in> nodes (adjacencyList st).
             D (snd c, fst c) (JSON_parse k) = D' (snd c, fst c) (JSON_parse k)"
  shows "handleNavigation D st = handleNavigation D' st"
proof (cases "geoData_points st")
  case None
  then show ?thesis by (simp add: handleNavigation_def)
next
  case (Some features)
  have "findNearestNode D (adjacencyList st) (snd c, fst c) = findNearestNode D' (adjacencyList st) (snd c, fst c)"
    if "point_coords features (startPoint st) = Some c \<or> point_coords features (endPoint st) = Some c" for c
  proof (rule findNearestNode_cong)
    from that have "c \<in> selected_coords st"
      by (simp add: selected_coords_def Some)
    with assms show "\<forall>k \<in> nodes (adjacencyList st). D (snd c, fst c) (JSON_parse k) = D' (snd c, fst c) (JSON_parse k)"
      by blast
  qed
  then show ?thesis
    by (auto simp: handleNavigation_def Some Let_def split: option.splits)
qed

text \<open>
  C8. Source coordinates are (longitude, latitude) pairs, and the system transposes each
  before it uses it. The node keys of the built graph are exactly the keys of the
  transposed vertices of the road features with at least two vertices. Every stored
  weight is the distance computed between the transposed endpoints of a segment of a
  road feature, stored under their keys. \<open>handleNavigation\<close> computes distances only
  from the transposed coordinates of the selected points to graph nodes: two distance
  functions that agree there give the same outcome.
\<close>

theorem coordinates_transposed:
  "nodes (buildAdjacencyList distanceTo features) =
     (\<Union>road \<in> {r \<in> set features. 2 \<le> length r}. (\<lambda>(lng, lat). JSON_stringify (lat, lng)) ` set road) \<and>
   (weight (buildAdjacencyList distanceTo features) x y = Some w \<longrightarrow>
      (\<exists>road \<in> set features. \<exists>((lng1, lat1), (lng2, lat2)) \<in> set (segments road).
          ends (lat1, lng1) (lat2, lng2) x y \<and> w = distanceTo (lat1, lng1) (lat2, lng2))) \<and>
   ((\<forall>c \<in> selected_coords st. \<forall>k \<in> nodes (adjacencyList st).
        distanceTo (snd c, fst c) (JSON_parse k) = distanceTo' (snd c, fst c) (JSON_parse k)) \<longrightarrow>
      handleNavigation distanceTo st = handleNavigation distanceTo' st)"
proof (intro conjI impI)
  show "nodes (buildAdjacencyList distanceTo features) =
     (\<Union>road \<in> {r \<in> set features. 2 \<le> length r}. (\<lambda>(lng, lat). JSON_stringify (lat, lng)) ` set road)"
    by (rule nodes_build)
  show "\<exists>road \<in> set features. \<exists>((lng1, lat1), (lng2, lat2)) \<in> set (segments road).
          ends (lat1, lng1) (lat2, lng2) x y \<and> w = distanceTo (lat1, lng1) (lat2, lng2)"
    if "weight (buildAdjacencyList distanceTo features) x y = Some w"
    using weight_build_source[OF that] by (simp add: case_prod_beta)
  show "handleNavigation distanceTo st = handleNavigation distanceTo' st"
    if "\<forall>c \<in> selected_coords st. \<forall>k \<in> nodes (adjacencyList st).
        distanceTo (snd c, fst c) (JSON_parse k) = distanceTo' (snd c, fst c) (JSON_parse k)"
    using that by (rule handleNavigation_cong)
qed

theorem coordinates_transposed_witness:
  "nodes (buildAdjacencyList (\<lambda>a b. fst a) [[(3, 4), (5, 6)]]) = {JSON_stringify (4, 3), JSON_stringify (6, 5)} \<and>
   weight (buildAdjacencyList (\<lambda>a b. fst a) [[(3, 4), (5, 6)]]) (JSON_stringify (4, 3)) (JSON_stringify (6, 5)) = Some 4 \<and>
   (\<exists>road \<in> set [[(3 :: real, 4 :: real), (5, 6)]]. \<exists>((lng1, lat1), (lng2, lat2)) \<in> set (segments road).
      ends (lat1, lng1) (lat2, lng2) (JSON_stringify (4, 3)) (JSON_stringify (6, 5)) \<and> 4 = fst (lat1, lng1)) \<and>
   selected_coords (scenario_state ''Library'' ''Cafe'') = {(0, 0), (1, 0)} \<and>
   handleNavigation taxicab (scenario_state ''Library'' ''Cafe'') =
     handleNavigation (\<lambda>a b. if a = (0, 0) \<or> a = (0, 1) then taxicab a b else 0)
       (scenario_state ''Library'' ''Cafe'') \<and>
   handleNavigation taxicab (scenario_state ''Library'' ''Cafe'') =
     Some (Inr (None, (scenario_state ''Library'' ''Cafe'')\<lparr>route := Some [(0, 0), (0, 1)]\<rparr>))"
proof -
  let ?F = "[[(3, 4), (5, 6)]] :: road list"
  let ?st = "scenario_state ''Library'' ''Cafe''"
  let ?D' = "\<lambda>a b :: coord. if a = (0, 0) \<or> a = (0, 1) then taxicab a b else 0"
  note t = coordinates_transposed[of "\<lambda>a b. fst a" ?F "JSON_stringify (4, 3)" "JSON_stringify (6, 5)" 4]
  have n: "nodes (buildAdjacencyList (\<lambda>a b. fst a) ?F) = {JSON_stringify (4, 3), JSON_stringify (6, 5)}"
    using t by auto
  have w: "weight (buildAdjacencyList (\<lambda>a b. fst a) ?F) (JSON_stringify (4, 3)) (JSON_stringify (6, 5)) = Some 4"
    by (simp add: builder_defs weight_def)
  with t have e: "\<exists>road \<in> set ?F. \<exists>((lng1, lat1), (lng2, lat2)) \<in> set (segments road).
      ends (lat1, lng1) (lat2, lng2) (JSON_stringify (4, 3)) (JSON_stringify (6, 5)) \<and> 4 = fst (lat1, lng1)"
    by blast
  have s: "selected_coords ?st = {(0, 0), (1, 0)}"
    by (auto simp: selected_coords_def scenario_state_def point_coords_def)
  have "\<forall>c \<in> selected_coords ?st. \<forall>k \<in> nodes (adjacencyList ?st).
          taxicab (snd c, fst c) (JSON_parse k) = ?D' (snd c, fst c) (JSON_parse k)"
    unfolding s by simp
  with coordinates_transposed[of taxicab _ _ _ _ ?st ?D']
  have c: "handleNavigation taxicab ?st = handleNavigation ?D' ?st"
    by blast
  have h: "handleNavigation taxicab ?st = Some (Inr (None, ?st\<lparr>route := Some [(0, 0), (0, 1)]\<rparr>))"
    by (simp add: handleNavigation_def scenario_state_def falsy_def point_coords_def findNearestNode_def
        nearer_def taxicab_def scenario_graph_def engine_defs)
  from n w e s c h show ?thesis
    by (intro conjI)
qed

end
